theory Spec2Isabelle
  imports Main "HOL-Library.Multiset"
begin

section \<open>Strings of the Go program\<close>

text \<open>
  A Go string is a sequence of bytes; \<^typ>\<open>string\<close> is a list of 8-bit characters, so
  the two coincide. The functions of package \<open>strings\<close> that \<open>cmd/count_chords.go\<close>
  calls are written out below on bytes, with the names they have in Go. A run-time panic
  of the Go program (an index or a slice bound out of range) is the value \<open>None\<close>.
\<close>

definition HasPrefix :: "string \<Rightarrow> string \<Rightarrow> bool" where
  "HasPrefix s p = (length p \<le> length s \<and> take (length p) s = p)"

definition HasSuffix :: "string \<Rightarrow> string \<Rightarrow> bool" where
  "HasSuffix s suf = (length suf \<le> length s \<and> drop (length s - length suf) s = suf)"

definition Contains :: "string \<Rightarrow> char \<Rightarrow> bool" where
  "Contains s c = (c \<in> set s)"

text \<open>\<open>strings.Split(s, sep)\<close> for a one-byte separator: never the empty list.\<close>

fun Split :: "string \<Rightarrow> char \<Rightarrow> string list" where
  "Split [] sep = [[]]"
| "Split (x # xs) sep =
     (if x = sep then [] # Split xs sep
      else (x # hd (Split xs sep)) # tl (Split xs sep))"

text \<open>
  \<open>strings.LastIndex(s, substr)\<close>: the byte index of the last occurrence of \<open>substr\<close>
  in \<open>s\<close>, or \<open>-1\<close>.
\<close>

definition LastIndex :: "string \<Rightarrow> string \<Rightarrow> int" where
  "LastIndex s sub =
     (if length s < length sub then - 1
      else case find (\<lambda>i. take (length sub) (drop i s) = sub)
                  (rev [0 ..< Suc (length s - length sub)]) of
             None \<Rightarrow> - 1
           | Some i \<Rightarrow> int i)"

text \<open>\<open>strings.ReplaceAll(s, old, new)\<close> for one-byte \<open>old\<close> and \<open>new\<close>.\<close>

definition ReplaceAll :: "string \<Rightarrow> char \<Rightarrow> char \<Rightarrow> string" where
  "ReplaceAll s old new = map (\<lambda>c. if c = old then new else c) s"

text \<open>
  \<open>strings.TrimSpace\<close> removes the leading and the trailing white space of Unicode. On
  bytes: the six ASCII spaces, and the UTF-8 encodings of U+0085, U+00A0, U+1680,
  U+2000 to U+200A, U+2028, U+2029, U+202F, U+205F and U+3000. A byte that does not
  decode is no space, so trimming stops there.
\<close>

definition space_runes :: "string list" where
  "space_runes =
     [[CHR 0x09], [CHR 0x0A], [CHR 0x0B], [CHR 0x0C], [CHR 0x0D], [CHR 0x20],
      [CHR 0xC2, CHR 0x85], [CHR 0xC2, CHR 0xA0], [CHR 0xE1, CHR 0x9A, CHR 0x80],
      [CHR 0xE2, CHR 0x80, CHR 0x80], [CHR 0xE2, CHR 0x80, CHR 0x81],
      [CHR 0xE2, CHR 0x80, CHR 0x82], [CHR 0xE2, CHR 0x80, CHR 0x83],
      [CHR 0xE2, CHR 0x80, CHR 0x84], [CHR 0xE2, CHR 0x80, CHR 0x85],
      [CHR 0xE2, CHR 0x80, CHR 0x86], [CHR 0xE2, CHR 0x80, CHR 0x87],
      [CHR 0xE2, CHR 0x80, CHR 0x88], [CHR 0xE2, CHR 0x80, CHR 0x89],
      [CHR 0xE2, CHR 0x80, CHR 0x8A], [CHR 0xE2, CHR 0x80, CHR 0xA8],
      [CHR 0xE2, CHR 0x80, CHR 0xA9], [CHR 0xE2, CHR 0x80, CHR 0xAF],
      [CHR 0xE2, CHR 0x81, CHR 0x9F], [CHR 0xE3, CHR 0x80, CHR 0x80]]"

text \<open>
  \<open>strip ps s\<close> drops from the front of \<open>s\<close>, as long as there is one, a member of
  \<open>ps\<close> that \<open>s\<close> starts with (an empty member is never dropped).
\<close>

function strip :: "string list \<Rightarrow> string \<Rightarrow> string" where
  "strip ps s =
     (case find (\<lambda>p. p \<noteq> [] \<and> HasPrefix s p) ps of
        None \<Rightarrow> s
      | Some p \<Rightarrow> strip ps (drop (length p) s))"
  by pat_completeness auto
termination
proof (relation "measure (\<lambda>(ps, s). length s)")
  show "wf (measure (\<lambda>(ps, s). length s))" by simp
next
  fix ps :: "string list" and s p :: string
  assume "find (\<lambda>p. p \<noteq> [] \<and> HasPrefix s p) ps = Some p"
  then have "p \<noteq> []" and "HasPrefix s p"
    by (auto simp: find_Some_iff)
  then have "length (drop (length p) s) < length s"
    by (cases s) (auto simp: HasPrefix_def)
  then show "((ps, drop (length p) s), (ps, s)) \<in> measure (\<lambda>(ps, s). length s)"
    by simp
qed

declare strip.simps [simp del]

definition TrimSpace :: "string \<Rightarrow> string" where
  "TrimSpace s = rev (strip (map rev space_runes) (rev (strip space_runes s)))"

text \<open>
  \<open>strings.ToUpper(string(b))\<close> for one byte \<open>b\<close>. The conversion \<open>string(b)\<close> is the
  UTF-8 encoding of the code point \<open>b\<close>: one byte below 0x80, two bytes from there on.
  \<open>unicode.ToUpper\<close> on U+0000 to U+00FF: the ASCII letters, U+00B5 to U+039C,
  U+00E0 to U+00FE but U+00F7 down by 32, and U+00FF to U+0178.
\<close>

definition unicode_ToUpper :: "nat \<Rightarrow> nat" where
  "unicode_ToUpper r =
     (if 97 \<le> r \<and> r \<le> 122 then r - 32
      else if r = 181 then 924
      else if 224 \<le> r \<and> r \<le> 254 \<and> r \<noteq> 247 then r - 32
      else if r = 255 then 376
      else r)"

definition utf8_encode :: "nat \<Rightarrow> string" where
  "utf8_encode r =
     (if r < 128 then [char_of r]
      else [char_of (192 + r div 64), char_of (128 + r mod 64)])"

definition ToUpper_byte :: "char \<Rightarrow> string" where
  "ToUpper_byte b = utf8_encode (unicode_ToUpper (of_char b))"

section \<open>The regular expressions\<close>

text \<open>
  Package \<open>regexp\<close> returns the leftmost match and, among the matches that start there,
  the one a backtracking engine finds first: an alternation tries its branches from left
  to right, and \<open>?\<close> tries to match before it tries to skip. The two patterns of the
  program use literals, classes, concatenation, alternation, \<open>?\<close>, \<open>\b\<close> and \<open>^\<close>
  only, all over ASCII, so the matcher works on bytes: a byte from 0x80 on is never a
  word character, and no match starts or ends inside a multi-byte sequence.
\<close>

datatype re =
    Lit char
  | Class "char list"
  | Cat re re
  | Alt re re
  | Opt re
  | WordBoundary
  | BeginText
  | Empty

definition is_word_char :: "char \<Rightarrow> bool" where
  "is_word_char c =
     (let n = (of_char c :: nat)
      in (65 \<le> n \<and> n \<le> 90) \<or> (97 \<le> n \<and> n \<le> 122) \<or> (48 \<le> n \<and> n \<le> 57) \<or> n = 95)"

definition at_word_boundary :: "string \<Rightarrow> nat \<Rightarrow> bool" where
  "at_word_boundary s i =
     ((0 < i \<and> i \<le> length s \<and> is_word_char (s ! (i - 1)))
      \<noteq> (i < length s \<and> is_word_char (s ! i)))"

text \<open>
  \<open>ends r s i\<close>: the positions where a match of \<open>r\<close> that starts at position \<open>i\<close> of
  \<open>s\<close> can end, in the order in which a backtracking engine finds them.
\<close>

primrec ends :: "re \<Rightarrow> string \<Rightarrow> nat \<Rightarrow> nat list" where
  "ends (Lit c) s i = (if i < length s \<and> s ! i = c then [Suc i] else [])"
| "ends (Class cs) s i = (if i < length s \<and> s ! i \<in> set cs then [Suc i] else [])"
| "ends (Cat a b) s i = concat (map (ends b s) (ends a s i))"
| "ends (Alt a b) s i = ends a s i @ ends b s i"
| "ends (Opt a) s i = ends a s i @ [i]"
| "ends WordBoundary s i = (if at_word_boundary s i then [i] else [])"
| "ends BeginText s i = (if i = 0 then [i] else [])"
| "ends Empty s i = [i]"

text \<open>The leftmost match at or after \<open>pos\<close>: its first and its end position.\<close>

definition find_match :: "re \<Rightarrow> string \<Rightarrow> nat \<Rightarrow> (nat \<times> nat) option" where
  "find_match r s pos =
     (case find (\<lambda>i. ends r s i \<noteq> []) [pos ..< Suc (length s)] of
        None \<Rightarrow> None
      | Some i \<Rightarrow> Some (i, hd (ends r s i)))"

definition MatchString :: "re \<Rightarrow> string \<Rightarrow> bool" where
  "MatchString r s = (find_match r s 0 \<noteq> None)"

primrec str :: "string \<Rightarrow> re" where
  "str [] = Empty"
| "str (c # cs) = Cat (Lit c) (str cs)"

primrec alts :: "re list \<Rightarrow> re" where
  "alts [] = Class []"
| "alts (r # rs) = (if rs = [] then r else Alt r (alts rs))"

primrec cats :: "re list \<Rightarrow> re" where
  "cats [] = Empty"
| "cats (r # rs) = Cat r (cats rs)"

text \<open>
  \<^verbatim>\<open>\b[A-G](?:#|b)?(?:m|maj7|add9|sus4|dim|aug|7|9|11|13|maj|m7|m9|aug7|dim7)?(?:/[A-G](?:#|b)?)?\b\<close>
\<close>

definition regex_suffixes :: "string list" where
  "regex_suffixes =
     [''m'', ''maj7'', ''add9'', ''sus4'', ''dim'', ''aug'', ''7'', ''9'', ''11'', ''13'',
      ''maj'', ''m7'', ''m9'', ''aug7'', ''dim7'']"

definition chordRegex :: re where
  "chordRegex =
     cats [WordBoundary,
           Class ''ABCDEFG'',
           Opt (Alt (Lit CHR ''#'') (Lit CHR ''b'')),
           Opt (alts (map str regex_suffixes)),
           Opt (cats [Lit CHR ''/'', Class ''ABCDEFG'',
                      Opt (Alt (Lit CHR ''#'') (Lit CHR ''b''))]),
           WordBoundary]"

text \<open>\<^verbatim>\<open>^[eBgdAE]\|\<close>\<close>

definition tablatureRegex :: re where
  "tablatureRegex = cats [BeginText, Class ''eBgdAE'', Lit CHR ''|'']"

text \<open>
  \<open>FindAllString(s, -1)\<close>: the successive matches from left to right, each search
  starting where the match before it ended. The loop of the library treats a match that is
  empty and at the search position apart (it steps over one rune); \<open>chordRegex\<close> consumes
  a root letter, so that never happens here (lemma \<open>chordRegex_match_nonempty\<close>), and the
  model ends the search there.
\<close>

function FindAllIndex :: "re \<Rightarrow> string \<Rightarrow> nat \<Rightarrow> (nat \<times> nat) list" where
  "FindAllIndex r s pos =
     (case find_match r s pos of
        None \<Rightarrow> []
      | Some (b, e) \<Rightarrow> if e = pos then [] else (b, e) # FindAllIndex r s e)"
  by pat_completeness auto
termination
proof (relation "measure (\<lambda>(r, s, pos). length s - pos)")
  show "wf (measure (\<lambda>(r, s, pos). length s - pos))" by simp
next
  fix r s pos x b e
  assume m: "find_match r s pos = Some x" and x: "(b, e) = x" and ne: "e \<noteq> pos"
  have bounds: "i \<le> j \<and> j \<le> length s" if "j \<in> set (ends q s i)" "i \<le> length s" for q i j
    using that
  proof (induction q arbitrary: i j)
    case (Cat q1 q2)
    from Cat.prems obtain k where k: "k \<in> set (ends q1 s i)" and j: "j \<in> set (ends q2 s k)"
      by auto
    from Cat.IH(1) [OF k Cat.prems(2)] have "i \<le> k" "k \<le> length s" by simp_all
    with Cat.IH(2) [OF j] show ?case by simp
  qed (auto split: if_splits)
  from m x obtain i where f: "find (\<lambda>i. ends r s i \<noteq> []) [pos ..< Suc (length s)] = Some i"
    and be: "b = i" "e = hd (ends r s i)"
    by (auto simp: find_match_def split: option.splits)
  from f obtain n where n: "n < length [pos ..< Suc (length s)]"
    "ends r s ([pos ..< Suc (length s)] ! n) \<noteq> []" "i = [pos ..< Suc (length s)] ! n"
    unfolding find_Some_iff by blast
  from n(1) have "[pos ..< Suc (length s)] ! n \<in> set [pos ..< Suc (length s)]" by (rule nth_mem)
  with n(3) have "i \<in> set [pos ..< Suc (length s)]" by (simp only:)
  then have i: "pos \<le> i" "i \<le> length s" by auto
  from n(2,3) be have "e \<in> set (ends r s i)" by simp
  from bounds [OF this i(2)] i ne
  show "((r, s, e), (r, s, pos)) \<in> measure (\<lambda>(r, s, pos). length s - pos)"
    by auto
qed

declare FindAllIndex.simps [simp del]

definition FindAllString :: "re \<Rightarrow> string \<Rightarrow> string list" where
  "FindAllString r s = map (\<lambda>(b, e). take (e - b) (drop b s)) (FindAllIndex r s 0)"

section \<open>normalizeChord\<close>

definition suffixes :: "string list" where
  "suffixes =
     [''Maj'', ''Maj7'', ''m7'', ''m9'', ''m11'', ''m13'', ''add9'', ''sus4'', ''dim'',
      ''dim7'', ''aug'', ''aug7'', ''7'', ''9'', ''11'', ''13'']"

text \<open>\<open>s[:index]\<close> panics unless \<open>0 \<le> index \<le> len(s)\<close>.\<close>

definition slice_to :: "string \<Rightarrow> int \<Rightarrow> string option" where
  "slice_to s index =
     (if 0 \<le> index \<and> index \<le> int (length s) then Some (take (nat index) s) else None)"

text \<open>The loop over \<open>suffixes\<close>, with its \<open>break\<close> at the first suffix that fits.\<close>

fun suffix_loop :: "string list \<Rightarrow> string \<Rightarrow> string option" where
  "suffix_loop [] chord = Some chord"
| "suffix_loop (suffix # rest) chord =
     (if HasSuffix chord suffix
      then (case slice_to chord (LastIndex chord suffix) of
              None \<Rightarrow> None
            | Some front \<Rightarrow> Some (front @ suffix))
      else suffix_loop rest chord)"

definition normalizeChordPart :: "string \<Rightarrow> string option" where
  "normalizeChordPart chord =
     (case chord of
        [] \<Rightarrow> Some []
      | c # cs \<Rightarrow> suffix_loop suffixes (ReplaceAll (ToUpper_byte c @ cs) CHR ''M'' CHR ''m''))"

definition normalizeChord :: "string \<Rightarrow> string option" where
  "normalizeChord chord0 =
     (let chord = TrimSpace chord0 in
      if chord = [] then Some []
      else
        case (if Contains chord CHR ''/''
              then (case Split chord CHR ''/'' of
                      p0 # p1 # _ \<Rightarrow> Some (p0, p1)
                    | _ \<Rightarrow> None)
              else Some (chord, []))
        of
          None \<Rightarrow> None
        | Some (chordPart, inversionPart) \<Rightarrow>
            (case normalizeChordPart chordPart of
               None \<Rightarrow> None
             | Some cp \<Rightarrow>
                 if inversionPart \<noteq> []
                 then (case normalizeChordPart inversionPart of
                         None \<Rightarrow> None
                       | Some ip \<Rightarrow> Some (cp @ ''/'' @ ip))
                 else Some cp))"

section \<open>CountChordsAction: the scan\<close>

text \<open>
  \<open>chordCounts\<close> is a \<open>map[string]int\<close>. Reading a key that is absent gives 0. Go's
  \<open>int\<close> is taken with 64 bits, as on every 64-bit platform, and \<open>++\<close> wraps around.
\<close>

type_synonym table = "string \<rightharpoonup> int"

definition int_wrap :: "int \<Rightarrow> int" where
  "int_wrap x = (x + 2 ^ 63) mod 2 ^ 64 - 2 ^ 63"

definition count_of :: "table \<Rightarrow> string \<Rightarrow> int" where
  "count_of chordCounts k = (case chordCounts k of None \<Rightarrow> 0 | Some n \<Rightarrow> n)"

text \<open>
  Lines 109 to 111: \<^verbatim>\<open>if normalizedChord != "" { chordCounts[normalizedChord]++ }\<close>.
  This is the only statement of the program that writes to the map.
\<close>

definition record_key :: "string \<Rightarrow> table \<Rightarrow> table" where
  "record_key normalizedChord chordCounts =
     (if normalizedChord \<noteq> []
      then chordCounts(normalizedChord \<mapsto> int_wrap (count_of chordCounts normalizedChord + 1))
      else chordCounts)"

text \<open>
  The matches of one line (line 106), none when one of the two \<open>continue\<close> statements
  skips the line (lines 96 and 101).
\<close>

definition matches :: "string \<Rightarrow> string list" where
  "matches line =
     (if HasPrefix line ''{'' \<or> HasPrefix line ''[''
      then []
      else if MatchString tablatureRegex line then []
      else FindAllString chordRegex line)"

text \<open>The loop of lines 107 to 112 over the matches of a line.\<close>

fun scan_matches :: "string list \<Rightarrow> table \<Rightarrow> table option" where
  "scan_matches [] chordCounts = Some chordCounts"
| "scan_matches (chord # rest) chordCounts =
     (case normalizeChord chord of
        None \<Rightarrow> None
      | Some normalizedChord \<Rightarrow> scan_matches rest (record_key normalizedChord chordCounts))"

text \<open>
  The loop of lines 91 to 113 over the lines that the scanner delivers from one file, and
  the walk over the \<open>.crd\<close> files, each given by its lines.
\<close>

fun scan_lines :: "string list \<Rightarrow> table \<Rightarrow> table option" where
  "scan_lines [] chordCounts = Some chordCounts"
| "scan_lines (line # rest) chordCounts =
     (case scan_matches (matches line) chordCounts of
        None \<Rightarrow> None
      | Some chordCounts' \<Rightarrow> scan_lines rest chordCounts')"

fun scan_files :: "string list list \<Rightarrow> table \<Rightarrow> table option" where
  "scan_files [] chordCounts = Some chordCounts"
| "scan_files (file # rest) chordCounts =
     (case scan_lines file chordCounts of
        None \<Rightarrow> None
      | Some chordCounts' \<Rightarrow> scan_files rest chordCounts')"

section \<open>CountChordsAction: the report\<close>

text \<open>
  \<open>for chord, count := range chordCounts\<close> visits every entry of the map once, in an
  order that Go leaves open (it differs from run to run). The order is the parameter
  \<open>ks\<close>: any list that \<open>range_order\<close> accepts.
\<close>

definition range_order :: "table \<Rightarrow> string list \<Rightarrow> bool" where
  "range_order chordCounts ks = (distinct ks \<and> set ks = dom chordCounts)"

definition frequencies :: "table \<Rightarrow> string list \<Rightarrow> (string \<times> int) list" where
  "frequencies chordCounts ks =
     List.map_filter (\<lambda>chord. map_option (Pair chord) (chordCounts chord)) ks"

text \<open>
  \<open>sort.Slice\<close> with \<^verbatim>\<open>frequencies[i].Count > frequencies[j].Count\<close> for its \<open>less\<close> (here \<open>lt\<close>). The
  library promises a permutation of the slice in which no element is \<open>less\<close> than one
  before it, and nothing about the order of elements that compare equal (the sort is not
  stable). \<open>sort_Slice lt xs ys\<close> says that \<open>ys\<close> is such a result for \<open>xs\<close>.
\<close>

definition Count_greater :: "string \<times> int \<Rightarrow> string \<times> int \<Rightarrow> bool" where
  "Count_greater a b = (snd a > snd b)"

definition sort_Slice :: "('a \<Rightarrow> 'a \<Rightarrow> bool) \<Rightarrow> 'a list \<Rightarrow> 'a list \<Rightarrow> bool" where
  "sort_Slice lt xs ys = (mset ys = mset xs \<and> sorted_wrt (\<lambda>a b. \<not> lt b a) ys)"

text \<open>\<open>fmt.Sprintf("%s: %d", freq.Chord, freq.Count)\<close>.\<close>

fun digits :: "nat \<Rightarrow> string" where
  "digits n = (if n < 10 then [char_of (48 + n)] else digits (n div 10) @ [char_of (48 + n mod 10)])"

declare digits.simps [simp del]

definition format_d :: "int \<Rightarrow> string" where
  "format_d i = (if i < 0 then CHR ''-'' # digits (nat (- i)) else digits (nat i))"

definition Sprintf_line :: "string \<times> int \<Rightarrow> string" where
  "Sprintf_line freq = fst freq @ '': '' @ format_d (snd freq)"

definition outputLines :: "(string \<times> int) list \<Rightarrow> string list" where
  "outputLines sorted_frequencies =
     [''Chord Usage Statistics'', ''======================''] @ map Sprintf_line sorted_frequencies"

text \<open>\<open>strings.Join(outputLines, "\n")\<close>: the bytes written to the output file.\<close>

fun Join :: "string list \<Rightarrow> string \<Rightarrow> string" where
  "Join [] sep = []"
| "Join [x] sep = x"
| "Join (x # y # rest) sep = x @ sep @ Join (y # rest) sep"

section \<open>Notions used in the proofs\<close>

text \<open>
  What \<open>normalizeChordPart\<close> returns, in closed form (lemma \<open>normalizeChordPart_eq\<close>).
\<close>

definition part_form :: "string \<Rightarrow> string" where
  "part_form chord =
     (case chord of [] \<Rightarrow> [] | c # cs \<Rightarrow> ReplaceAll (ToUpper_byte c @ cs) CHR ''M'' CHR ''m'')"

text \<open>An ASCII byte that is neither a control character nor the blank.\<close>

definition printable :: "char \<Rightarrow> bool" where
  "printable c = (32 < (of_char c :: nat) \<and> (of_char c :: nat) < 128)"

text \<open>The bytes that occur in the encodings of white space.\<close>

definition space_bytes :: "char set" where
  "space_bytes = \<Union> (set ` set space_runes)"

text \<open>
  The strings a pattern can consume, whatever the context: \<open>\b\<close> and \<open>^\<close> consume nothing.
  Every match is one of them (lemma \<open>FindAllString_lang\<close>).
\<close>

primrec lang :: "re \<Rightarrow> string set" where
  "lang (Lit c) = {[c]}"
| "lang (Class cs) = (\<lambda>c. [c]) ` set cs"
| "lang (Cat a b) = {x @ y | x y. x \<in> lang a \<and> y \<in> lang b}"
| "lang (Alt a b) = lang a \<union> lang b"
| "lang (Opt a) = insert [] (lang a)"
| "lang WordBoundary = {[]}"
| "lang BeginText = {[]}"
| "lang Empty = {[]}"

text \<open>What \<^verbatim>\<open>(?:#|b)?\<close> consumes.\<close>

definition accidentals :: "string set" where
  "accidentals = {[], ''#'', ''b''}"

text \<open>The bytes of a match: printable, and neither \<open>/\<close> (outside the inversion) nor \<open>M\<close>.\<close>

definition chord_char :: "char \<Rightarrow> bool" where
  "chord_char c = (printable c \<and> c \<noteq> CHR ''/'' \<and> c \<noteq> CHR ''M'')"

text \<open>
  The keys that the scan of a list of lines passes to \<open>record_key\<close>, in the order of the
  scan (lemma \<open>scan_lines_fold\<close>).
\<close>

definition line_keys :: "string \<Rightarrow> string list" where
  "line_keys line = List.map_filter normalizeChord (matches line)"

definition corpus_keys :: "string list \<Rightarrow> string list" where
  "corpus_keys lines = concat (map line_keys lines)"

section \<open>Properties of the matcher\<close>

lemma ends_bounds: "e \<in> set (ends r s i) \<Longrightarrow> i \<le> length s \<Longrightarrow> i \<le> e \<and> e \<le> length s"
proof (induction r arbitrary: i e)
  case (Cat a b)
  from Cat.prems obtain j where j: "j \<in> set (ends a s i)" and e: "e \<in> set (ends b s j)"
    by auto
  from Cat.IH(1) [OF j Cat.prems(2)] have "i \<le> j" "j \<le> length s" by simp_all
  with Cat.IH(2) [OF e] show ?case by simp
qed (auto split: if_splits)

lemma find_SomeD: "find P xs = Some x \<Longrightarrow> P x \<and> x \<in> set xs"
  by (induction xs) (auto split: if_splits)

lemma find_match_bounds:
  assumes "find_match r s pos = Some (b, e)"
  shows "pos \<le> b \<and> b \<le> e \<and> e \<le> length s"
proof -
  from assms obtain i where f: "find (\<lambda>i. ends r s i \<noteq> []) [pos ..< Suc (length s)] = Some i"
    and be: "b = i" "e = hd (ends r s i)"
    by (auto simp: find_match_def split: option.splits)
  from find_SomeD [OF f] have ne: "ends r s b \<noteq> []" and b: "pos \<le> b" "b \<le> length s"
    using be by auto
  from ne be have "e \<in> set (ends r s b)" by simp
  with b ends_bounds [of e r s b] show ?thesis by simp
qed

section \<open>Properties of the canonicalizer\<close>

lemma LastIndex_HasSuffix:
  assumes "HasSuffix chord suf"
  shows "LastIndex chord suf = int (length chord - length suf)"
proof -
  let ?k = "length chord - length suf"
  from assms have le: "length suf \<le> length chord" and d: "drop ?k chord = suf"
    by (simp_all add: HasSuffix_def)
  have "rev [0 ..< Suc ?k] = ?k # rev [0 ..< ?k]" by simp
  moreover have "take (length suf) (drop ?k chord) = suf" using d by simp
  ultimately have "find (\<lambda>i. take (length suf) (drop i chord) = suf) (rev [0 ..< Suc ?k]) = Some ?k"
    by simp
  with le show ?thesis by (simp add: LastIndex_def)
qed

lemma suffix_loop_id: "suffix_loop sfs chord = Some chord"
proof (induction sfs)
  case Nil
  show ?case by simp
next
  case (Cons suf rest)
  show ?case
  proof (cases "HasSuffix chord suf")
    case True
    let ?k = "length chord - length suf"
    from True have d: "drop ?k chord = suf" by (simp add: HasSuffix_def)
    have "take ?k chord @ suf = chord" using d append_take_drop_id [of ?k chord] by simp
    with True show ?thesis
      by (simp add: LastIndex_HasSuffix slice_to_def)
  next
    case False
    with Cons.IH show ?thesis by simp
  qed
qed

lemma normalizeChordPart_eq: "normalizeChordPart chord = Some (part_form chord)"
  by (simp add: normalizeChordPart_def part_form_def suffix_loop_id split: list.split)

lemma Split_nonempty: "Split s sep \<noteq> []"
  by (induction s) auto

lemma Split_no_sep: "sep \<notin> set s \<Longrightarrow> Split s sep = [s]"
  by (induction s) auto

lemma Split_append: "sep \<notin> set a \<Longrightarrow> Split (a @ sep # b) sep = a # Split b sep"
  by (induction a) auto

lemma normalizeChord_no_slash:
  assumes "CHR ''/'' \<notin> set (TrimSpace s)"
  shows "normalizeChord s = Some (part_form (TrimSpace s))"
  using assms
  by (simp add: normalizeChord_def Contains_def normalizeChordPart_eq Let_def part_form_def)

lemma normalizeChord_slash:
  assumes t: "TrimSpace s = a @ CHR ''/'' # r" and a: "CHR ''/'' \<notin> set a"
  shows "normalizeChord s =
           Some (if hd (Split r CHR ''/'') = [] then part_form a
                 else part_form a @ ''/'' @ part_form (hd (Split r CHR ''/'')))"
proof -
  obtain p1 ps where sp: "Split r CHR ''/'' = p1 # ps"
    using Split_nonempty [of r "CHR ''/''"] by (cases "Split r CHR ''/''") auto
  have "Split (TrimSpace s) CHR ''/'' = a # p1 # ps"
    using t a sp by (simp add: Split_append)
  with t sp show ?thesis
    by (simp add: normalizeChord_def Contains_def normalizeChordPart_eq Let_def)
qed

lemma normalizeChord_total: "\<exists>y. normalizeChord s = Some y"
proof (cases "CHR ''/'' \<in> set (TrimSpace s)")
  case True
  then obtain a r where "TrimSpace s = a @ CHR ''/'' # r" "CHR ''/'' \<notin> set a"
    by (auto dest: split_list_first)
  then show ?thesis using normalizeChord_slash by blast
next
  case False
  then show ?thesis using normalizeChord_no_slash by blast
qed

lemma strip_None: "find (\<lambda>p. p \<noteq> [] \<and> HasPrefix s p) ps = None \<Longrightarrow> strip ps s = s"
  by (subst strip.simps) simp

lemma space_runes_ends:
  "\<forall>p \<in> set space_runes. p \<noteq> [] \<and> \<not> printable (hd p) \<and> \<not> printable (last p)"
  by (simp add: space_runes_def printable_def)

lemma HasPrefix_hd: "HasPrefix (c # cs) p \<Longrightarrow> p \<noteq> [] \<Longrightarrow> hd p = c"
  by (cases p) (auto simp: HasPrefix_def)

lemma strip_left_printable:
  assumes "printable c"
  shows "strip space_runes (c # cs) = c # cs"
proof (rule strip_None)
  show "find (\<lambda>p. p \<noteq> [] \<and> HasPrefix (c # cs) p) space_runes = None"
    using assms space_runes_ends HasPrefix_hd [of c cs]
    unfolding find_None_iff by blast
qed

lemma strip_right_printable:
  assumes "printable c"
  shows "strip (map rev space_runes) (c # cs) = c # cs"
proof (rule strip_None)
  have "\<And>p. p \<in> set space_runes \<Longrightarrow> \<not> (rev p \<noteq> [] \<and> HasPrefix (c # cs) (rev p))"
  proof
    fix p assume p: "p \<in> set space_runes" and h: "rev p \<noteq> [] \<and> HasPrefix (c # cs) (rev p)"
    then have "hd (rev p) = c" using HasPrefix_hd by blast
    with h have "last p = c" by (simp add: hd_rev)
    with p space_runes_ends assms show False by blast
  qed
  then show "find (\<lambda>p. p \<noteq> [] \<and> HasPrefix (c # cs) p) (map rev space_runes) = None"
    unfolding find_None_iff by auto
qed

lemma TrimSpace_id:
  assumes "s \<noteq> []" "printable (hd s)" "printable (last s)"
  shows "TrimSpace s = s"
proof -
  from assms obtain c cs where s: "s = c # cs" and c: "printable c" by (cases s) auto
  from assms obtain d ds where r: "rev s = d # ds" and d: "printable d"
    by (cases "rev s") (auto simp: hd_rev)
  have "strip space_runes s = s" using s c strip_left_printable by simp
  moreover have "strip (map rev space_runes) (rev s) = rev s"
    using r d strip_right_printable by simp
  ultimately show ?thesis by (simp add: TrimSpace_def)
qed

text \<open>
  C2 (as the spec states it, refuted): the canonicalizer does not cut a token back to a
  recognized suffix. \<open>"C7x"\<close> has the suffix \<open>7\<close> followed by a stray \<open>x\<close>; no entry of
  \<open>suffixes\<close> is a suffix of it, and it is returned with the \<open>x\<close> kept.
\<close>

theorem normalizeChord_keeps_stray_characters:
  "normalizeChord ''C7x'' = Some ''C7x'' \<and> normalizeChord ''C7x'' \<noteq> Some ''C7''"
  by code_simp

text \<open>
  C2 (amended): the loop over \<open>suffixes\<close> returns every string as it received it. It only
  acts when \<open>HasSuffix\<close> holds, and then \<open>LastIndex\<close> is the start of that very suffix, so
  \<open>chord[:index] + suffix\<close> is \<open>chord\<close> again. A part is therefore returned with all its
  characters: the first one upper-cased, every \<open>M\<close> turned into \<open>m\<close>, nothing cut off.
\<close>

theorem suffix_loop_changes_nothing:
  "suffix_loop suffixes chord = Some chord \<and>
   normalizeChordPart (c # cs) = Some (ReplaceAll (ToUpper_byte c @ cs) CHR ''M'' CHR ''m'') \<and>
   length (ReplaceAll (ToUpper_byte c @ cs) CHR ''M'' CHR ''m'') \<ge> length (c # cs)"
proof -
  have "length (ToUpper_byte c) \<ge> 1"
    by (simp add: ToUpper_byte_def utf8_encode_def)
  then show ?thesis
    by (simp add: suffix_loop_id normalizeChordPart_eq part_form_def ReplaceAll_def)
qed

theorem suffix_loop_changes_nothing_witness:
  "suffix_loop suffixes ''C7x'' = Some ''C7x'' \<and> normalizeChordPart ''C7x'' = Some ''C7x''"
proof -
  have "ReplaceAll (ToUpper_byte CHR ''C'' @ ''7x'') CHR ''M'' CHR ''m'' = ''C7x''"
    by code_simp
  with suffix_loop_changes_nothing [of "''C7x''" "CHR ''C''" "''7x''"] show ?thesis
    by simp
qed

text \<open>
  C7: \<open>"CM"\<close> and \<open>"Cm"\<close> have the same canonical key, \<open>"Cm"\<close>: in a part, after the first
  character is upper-cased, every \<open>M\<close> of the remainder becomes \<open>m\<close>.
\<close>

theorem normalizeChord_minor_marker:
  "normalizeChord ''CM'' = normalizeChord ''Cm'' \<and>
   normalizeChord ''CM'' = Some ''Cm'' \<and>
   normalizeChordPart (c # cs) =
     Some (ReplaceAll (ToUpper_byte c) CHR ''M'' CHR ''m'' @ ReplaceAll cs CHR ''M'' CHR ''m'')"
proof -
  have "normalizeChord ''CM'' = Some ''Cm''" by code_simp
  moreover have "normalizeChord ''Cm'' = Some ''Cm''" by code_simp
  ultimately show ?thesis
    by (simp add: normalizeChordPart_eq part_form_def ReplaceAll_def)
qed

section \<open>Properties of the classifier and the recognizer\<close>

text \<open>The lines that the classifier skips: no token is extracted from them.\<close>

lemma tablature_lines_skipped:
  assumes "c \<in> set ''eBgdAE''"
  shows "MatchString tablatureRegex (c # CHR ''|'' # rest) \<and> matches (c # CHR ''|'' # rest) = []"
proof -
  let ?s = "c # CHR ''|'' # rest"
  have e: "ends tablatureRegex ?s 0 = [2]"
    using assms by (auto simp: tablatureRegex_def)
  have "[0 ..< Suc (length ?s)] = 0 # [Suc 0 ..< Suc (length ?s)]"
    by (rule upt_conv_Cons) simp
  then have "find (\<lambda>i. ends tablatureRegex ?s i \<noteq> []) [0 ..< Suc (length ?s)] = Some 0"
    using e by (simp only: find.simps) simp
  then have "MatchString tablatureRegex ?s"
    by (simp add: MatchString_def find_match_def)
  then show ?thesis by (simp add: matches_def)
qed

lemma metadata_lines_skipped:
  "matches (CHR ''{'' # rest) = [] \<and> matches (CHR ''['' # rest) = []"
  by (simp add: matches_def HasPrefix_def)

text \<open>
  C1 (evaluation at the failing input): the class of \<open>tablatureRegex\<close> is \<open>[eBgdAE]\<close>, with
  the G and the D string in lower case. A tablature line of the G or the D string, written
  with the capital letter, is not skipped, and \<open>chordRegex\<close> takes its first letter for a
  chord. The line of the \<open>e\<close> string is skipped.
\<close>

theorem tablature_G_D_lines_not_skipped:
  "matches ''G|--3--2--0--|'' = [''G''] \<and> matches ''D|--3--2--0--|'' = [''D''] \<and>
   \<not> MatchString tablatureRegex ''G|--3--2--0--|'' \<and>
   \<not> MatchString tablatureRegex ''D|--3--2--0--|'' \<and>
   matches ''e|--3--2--0--|'' = []"
  by code_simp

text \<open>
  C3 (evaluation at the failing input): \<open>chordRegex\<close> has no alternative \<open>m11\<close> or \<open>m13\<close>.
  On the line \<open>"Cm11"\<close> the only candidates are \<open>C\<close> and \<open>Cm\<close>, both followed by a word
  character, so \<open>\b\<close> fails and nothing is matched, although the classifier accepts the
  line and \<open>normalizeChordPart\<close> lists both suffixes.
\<close>

theorem chordRegex_misses_m11_m13:
  "matches ''Cm11'' = [] \<and> matches ''Cm13'' = [] \<and>
   FindAllString chordRegex ''Cm11'' = [] \<and> FindAllString chordRegex ''Cm13'' = [] \<and>
   \<not> HasPrefix ''Cm11'' ''{'' \<and> \<not> HasPrefix ''Cm11'' ''['' \<and>
   \<not> MatchString tablatureRegex ''Cm11'' \<and>
   ''m11'' \<in> set suffixes \<and> ''m13'' \<in> set suffixes \<and>
   ''m11'' \<notin> set regex_suffixes \<and> ''m13'' \<notin> set regex_suffixes \<and>
   normalizeChord ''Cm11'' = Some ''Cm11''"
  by code_simp

section \<open>The canonicalizer and the segments of its input\<close>

lemma HasPrefix_iff: "HasPrefix s p \<longleftrightarrow> (\<exists>r. s = p @ r)"
proof
  assume "HasPrefix s p"
  then have "s = p @ drop (length p) s"
    unfolding HasPrefix_def by (metis append_take_drop_id)
  then show "\<exists>r. s = p @ r" ..
next
  assume "\<exists>r. s = p @ r"
  then show "HasPrefix s p" by (auto simp: HasPrefix_def)
qed

lemma strip_Some:
  "find (\<lambda>p. p \<noteq> [] \<and> HasPrefix s p) ps = Some p \<Longrightarrow> strip ps s = strip ps (drop (length p) s)"
  by (subst strip.simps) simp

lemma strip_decomp: "\<exists>pre. s = pre @ strip ps s \<and> set pre \<subseteq> \<Union> (set ` set ps)"
proof (induction ps s rule: strip.induct)
  case (1 ps s)
  show ?case
  proof (cases "find (\<lambda>p. p \<noteq> [] \<and> HasPrefix s p) ps")
    case None
    then have "strip ps s = s" by (rule strip_None)
    then show ?thesis by simp
  next
    case (Some p)
    from find_SomeD [OF Some] have p: "p \<in> set ps" and hp: "HasPrefix s p" by simp_all
    from hp have s: "s = p @ drop (length p) s" by (auto simp: HasPrefix_iff)
    from "1.IH" [OF Some] obtain pre where
      pre: "drop (length p) s = pre @ strip ps (drop (length p) s)" "set pre \<subseteq> \<Union> (set ` set ps)"
      by blast
    have "s = (p @ pre) @ strip ps s"
      using s pre(1) strip_Some [OF Some] by (metis append.assoc)
    moreover have "set (p @ pre) \<subseteq> \<Union> (set ` set ps)" using p pre(2) by auto
    ultimately show ?thesis by blast
  qed
qed

lemma slash_no_space: "CHR ''/'' \<notin> space_bytes"
  by (simp add: space_bytes_def space_runes_def)

lemma TrimSpace_decomp:
  "\<exists>pre post. s = pre @ TrimSpace s @ post \<and> set pre \<subseteq> space_bytes \<and> set post \<subseteq> space_bytes"
proof -
  obtain pre where pre: "s = pre @ strip space_runes s" "set pre \<subseteq> space_bytes"
    using strip_decomp [of s space_runes] unfolding space_bytes_def by blast
  let ?m = "strip space_runes s"
  obtain q where q: "rev ?m = q @ strip (map rev space_runes) (rev ?m)"
    "set q \<subseteq> \<Union> (set ` set (map rev space_runes))"
    using strip_decomp [of "rev ?m" "map rev space_runes"] by blast
  have "?m = rev (q @ strip (map rev space_runes) (rev ?m))" using q(1) by (metis rev_rev_ident)
  then have m: "?m = TrimSpace s @ rev q" by (simp add: TrimSpace_def)
  have "set (rev q) \<subseteq> space_bytes" using q(2) by (auto simp: space_bytes_def)
  with pre m show ?thesis by metis
qed

lemma count_slash_TrimSpace: "count_list (TrimSpace s) CHR ''/'' = count_list s CHR ''/''"
proof -
  obtain pre post where d: "s = pre @ TrimSpace s @ post" and
    "set pre \<subseteq> space_bytes" "set post \<subseteq> space_bytes"
    using TrimSpace_decomp by blast
  then have "CHR ''/'' \<notin> set pre" "CHR ''/'' \<notin> set post" using slash_no_space by auto
  then have "count_list pre CHR ''/'' = 0" "count_list post CHR ''/'' = 0" by simp_all
  then have "count_list (pre @ TrimSpace s @ post) CHR ''/'' = count_list (TrimSpace s) CHR ''/''"
    by simp
  with d show ?thesis by simp
qed

lemma two_slashes:
  assumes "1 < count_list t CHR ''/''"
  shows "\<exists>a b rest. t = a @ ''/'' @ b @ ''/'' @ rest \<and> CHR ''/'' \<notin> set a \<and> CHR ''/'' \<notin> set b"
proof -
  from assms have "CHR ''/'' \<in> set t" by (metis count_list_0_iff not_less_zero)
  then obtain a r where t: "t = a @ CHR ''/'' # r" and a: "CHR ''/'' \<notin> set a"
    by (auto dest: split_list_first)
  with assms have "0 < count_list r CHR ''/''" by simp
  then have "CHR ''/'' \<in> set r" by (metis count_list_0_iff less_numeral_extra(3))
  then obtain b rest where r: "r = b @ CHR ''/'' # rest" and b: "CHR ''/'' \<notin> set b"
    by (auto dest: split_list_first)
  from t r a b show ?thesis
    by (intro exI [of _ a] exI [of _ b] exI [of _ rest]) simp
qed

lemma normalizeChord_two_slashes:
  assumes "1 < count_list s CHR ''/''"
  shows "\<exists>a b rest c i. TrimSpace s = a @ ''/'' @ b @ ''/'' @ rest \<and>
           CHR ''/'' \<notin> set a \<and> CHR ''/'' \<notin> set b \<and>
           normalizeChordPart a = Some c \<and> normalizeChordPart b = Some i \<and>
           normalizeChord s = Some (if b = [] then c else c @ ''/'' @ i)"
proof -
  from assms have "1 < count_list (TrimSpace s) CHR ''/''" by (simp add: count_slash_TrimSpace)
  from two_slashes [OF this] obtain a b rest where
    t: "TrimSpace s = a @ ''/'' @ b @ ''/'' @ rest" and a: "CHR ''/'' \<notin> set a" and b: "CHR ''/'' \<notin> set b"
    by blast
  have "hd (Split (b @ CHR ''/'' # rest) CHR ''/'') = b" using b by (simp add: Split_append)
  with normalizeChord_slash [of s a "b @ CHR ''/'' # rest"] t a
  have "normalizeChord s = Some (if b = [] then part_form a else part_form a @ ''/'' @ part_form b)"
    by simp
  with t a b show ?thesis
    by (intro exI [of _ a] exI [of _ b] exI [of _ rest] exI [of _ "part_form a"]
          exI [of _ "part_form b"]) (simp add: normalizeChordPart_eq)
qed

lemma HasPrefix_snoc:
  assumes "x \<notin> set p"
  shows "HasPrefix (a @ [x]) p \<longleftrightarrow> HasPrefix a p"
proof
  assume "HasPrefix (a @ [x]) p"
  then obtain r where r: "a @ [x] = p @ r" by (auto simp: HasPrefix_iff)
  show "HasPrefix a p"
  proof (cases r rule: rev_cases)
    case Nil
    with r assms show ?thesis by auto
  next
    case (snoc r' y)
    with r have "a = p @ r'" by simp
    then show ?thesis by (auto simp: HasPrefix_iff)
  qed
next
  assume "HasPrefix a p"
  then show "HasPrefix (a @ [x]) p" by (auto simp: HasPrefix_iff)
qed

lemma strip_snoc:
  assumes "\<forall>p \<in> set ps. x \<notin> set p"
  shows "strip ps (a @ [x]) = strip ps a @ [x]"
  using assms
proof (induction ps a rule: strip.induct)
  case (1 ps s)
  have eq: "find (\<lambda>p. p \<noteq> [] \<and> HasPrefix (s @ [x]) p) ps = find (\<lambda>p. p \<noteq> [] \<and> HasPrefix s p) ps"
    using "1.prems" by (intro find_cong) (auto simp: HasPrefix_snoc)
  show ?case
  proof (cases "find (\<lambda>p. p \<noteq> [] \<and> HasPrefix s p) ps")
    case None
    with eq show ?thesis by (simp add: strip_None)
  next
    case (Some p)
    from find_SomeD [OF Some] have "length p \<le> length s" by (simp add: HasPrefix_def)
    then have "drop (length p) (s @ [x]) = drop (length p) s @ [x]" by simp
    moreover have "strip ps (s @ [x]) = strip ps (drop (length p) (s @ [x]))"
      using eq Some by (intro strip_Some) simp
    ultimately show ?thesis
      using "1.IH" [OF Some "1.prems"] strip_Some [OF Some] by simp
  qed
qed

lemma TrimSpace_trailing_slash: "TrimSpace (a @ ''/'') = strip space_runes a @ ''/''"
proof -
  have "\<forall>p \<in> set space_runes. CHR ''/'' \<notin> set p"
    using slash_no_space by (auto simp: space_bytes_def)
  then have l: "strip space_runes (a @ ''/'') = strip space_runes a @ ''/''"
    by (rule strip_snoc)
  have "printable CHR ''/''" by (simp add: printable_def)
  then have "strip (map rev space_runes) (CHR ''/'' # rev (strip space_runes a))
             = CHR ''/'' # rev (strip space_runes a)"
    by (rule strip_right_printable)
  with l show ?thesis by (simp add: TrimSpace_def)
qed

lemma normalizeChord_trailing_slash:
  assumes "CHR ''/'' \<notin> set a"
  shows "normalizeChord (a @ ''/'') = normalizeChordPart (strip space_runes a)"
proof -
  obtain pre where "a = pre @ strip space_runes a" using strip_decomp by blast
  then have "set (strip space_runes a) \<subseteq> set a" by (metis set_append sup_ge2)
  with assms have n: "CHR ''/'' \<notin> set (strip space_runes a)" by auto
  have "TrimSpace (a @ ''/'') = strip space_runes a @ CHR ''/'' # []"
    by (simp add: TrimSpace_trailing_slash)
  from normalizeChord_slash [OF this n] show ?thesis
    by (simp add: normalizeChordPart_eq)
qed

text \<open>
  C10: when the input has more than one \<open>/\<close>, the result is built from the first two
  segments of the trimmed input only (\<open>parts[0]\<close> and \<open>parts[1]\<close>); whatever follows the
  second \<open>/\<close> is dropped, so \<open>"C/E/G"\<close> gives \<open>"C/E"\<close>. When the input ends in its only
  \<open>/\<close>, the inversion part is empty and the result is the normalized chord part alone (the
  text before the \<open>/\<close>, without its leading white space), so \<open>"C/"\<close> gives \<open>"C"\<close>.
\<close>

theorem normalizeChord_slash_segments:
  "(1 < count_list s CHR ''/'' \<longrightarrow>
      (\<exists>a b rest c i. TrimSpace s = a @ ''/'' @ b @ ''/'' @ rest \<and>
           CHR ''/'' \<notin> set a \<and> CHR ''/'' \<notin> set b \<and>
           normalizeChordPart a = Some c \<and> normalizeChordPart b = Some i \<and>
           normalizeChord s = Some (if b = [] then c else c @ ''/'' @ i))) \<and>
   (CHR ''/'' \<notin> set p \<longrightarrow>
      normalizeChord (p @ ''/'') = normalizeChordPart (strip space_runes p)) \<and>
   normalizeChord ''C/E/G'' = Some ''C/E'' \<and>
   normalizeChord ''C/'' = Some ''C''"
proof -
  have "normalizeChord ''C/E/G'' = Some ''C/E''" by code_simp
  moreover have "normalizeChord ''C/'' = Some ''C''" by code_simp
  ultimately show ?thesis
    using normalizeChord_two_slashes [of s] normalizeChord_trailing_slash [of p] by blast
qed

theorem normalizeChord_slash_segments_witness:
  "1 < count_list ''C/E/G'' CHR ''/'' \<and>
   (\<exists>a b rest c i. TrimSpace ''C/E/G'' = a @ ''/'' @ b @ ''/'' @ rest \<and>
           CHR ''/'' \<notin> set a \<and> CHR ''/'' \<notin> set b \<and>
           normalizeChordPart a = Some c \<and> normalizeChordPart b = Some i \<and>
           normalizeChord ''C/E/G'' = Some (if b = [] then c else c @ ''/'' @ i)) \<and>
   CHR ''/'' \<notin> set ''C'' \<and>
   normalizeChord (''C'' @ ''/'') = normalizeChordPart (strip space_runes ''C'') \<and>
   normalizeChordPart (strip space_runes ''C'') = Some ''C''"
proof -
  have 1: "1 < count_list ''C/E/G'' CHR ''/''" by simp
  have 2: "CHR ''/'' \<notin> set ''C''" by simp
  have 3: "normalizeChordPart (strip space_runes ''C'') = Some ''C''" by code_simp
  from normalizeChord_slash_segments [of "''C/E/G''" "''C''"] 1 2 3 show ?thesis by blast
qed

section \<open>Every match is its own canonical key\<close>

lemma take_drop_split:
  assumes "i \<le> j" "j \<le> e"
  shows "take (e - i) (drop i s) = take (j - i) (drop i s) @ take (e - j) (drop j s)"
proof -
  have "e - i = (j - i) + (e - j)" using assms by simp
  then have "take (e - i) (drop i s) = take (j - i) (drop i s) @ take (e - j) (drop (j - i) (drop i s))"
    by (simp only: take_add)
  moreover have "drop (j - i) (drop i s) = drop j s" using assms by simp
  ultimately show ?thesis by simp
qed

lemma take_drop_one: "i < length s \<Longrightarrow> take (Suc i - i) (drop i s) = [s ! i]"
  by (simp add: take_Suc_conv_app_nth Cons_nth_drop_Suc [symmetric])

lemma ends_lang:
  "e \<in> set (ends r s i) \<Longrightarrow> i \<le> length s \<Longrightarrow> take (e - i) (drop i s) \<in> lang r"
proof (induction r arbitrary: i e)
  case (Lit c)
  then have "i < length s" "s ! i = c" "e = Suc i" by (auto split: if_splits)
  then show ?case using take_drop_one [of i s] by simp
next
  case (Class cs)
  then have "i < length s" "s ! i \<in> set cs" "e = Suc i" by (auto split: if_splits)
  then show ?case using take_drop_one [of i s] by simp
next
  case (Cat a b)
  from Cat.prems obtain j where j: "j \<in> set (ends a s i)" and e: "e \<in> set (ends b s j)"
    by auto
  from ends_bounds [OF j Cat.prems(2)] have ij: "i \<le> j" "j \<le> length s" by simp_all
  from ends_bounds [OF e ij(2)] have je: "j \<le> e" by simp
  from Cat.IH(1) [OF j Cat.prems(2)] Cat.IH(2) [OF e ij(2)] take_drop_split [OF ij(1) je, of s]
  show ?case by auto
next
  case (Alt a b)
  then show ?case by auto
next
  case (Opt a)
  then show ?case by auto
qed (auto split: if_splits)

lemma FindAllIndex_sound:
  "(b, e) \<in> set (FindAllIndex r s pos) \<Longrightarrow> b \<le> length s \<and> e \<in> set (ends r s b)"
proof (induction r s pos rule: FindAllIndex.induct)
  case (1 r s pos)
  show ?case
  proof (cases "find_match r s pos")
    case None
    with "1.prems" show ?thesis by (simp add: FindAllIndex.simps)
  next
    case (Some m)
    obtain b' e' where m: "m = (b', e')" by (cases m)
    from Some m obtain "b' \<le> length s" "e' \<in> set (ends r s b')"
      using find_match_bounds [of r s pos b' e']
      by (auto simp: find_match_def split: option.splits dest!: find_SomeD)
    moreover from "1.prems" Some m have "(b, e) = (b', e') \<or> (e' \<noteq> pos \<and> (b, e) \<in> set (FindAllIndex r s e'))"
      by (subst (asm) FindAllIndex.simps) (auto split: if_splits)
    ultimately show ?thesis using "1.IH" [OF Some m [symmetric]] by auto
  qed
qed

lemma FindAllString_lang: "x \<in> set (FindAllString r s) \<Longrightarrow> x \<in> lang r"
  by (auto simp: FindAllString_def dest!: FindAllIndex_sound intro: ends_lang)

lemma lang_str: "lang (str w) = {w}"
  by (induction w) auto

lemma lang_alts: "lang (alts rs) = \<Union> (lang ` set rs)"
  by (induction rs) auto

lemma lang_suffixes: "lang (alts (map str regex_suffixes)) = set regex_suffixes"
  by (simp add: lang_alts lang_str)

lemma lang_CatE:
  assumes "x \<in> lang (Cat a b)"
  obtains y z where "x = y @ z" "y \<in> lang a" "z \<in> lang b"
  using assms by auto

lemma lang_accidental: "lang (Opt (Alt (Lit CHR ''#'') (Lit CHR ''b''))) = accidentals"
  by (auto simp: accidentals_def)

lemma lang_inversion:
  assumes "v \<in> lang (Opt (cats [Lit CHR ''/'', Class ''ABCDEFG'',
                                 Opt (Alt (Lit CHR ''#'') (Lit CHR ''b''))]))"
  shows "v = [] \<or> (\<exists>r' a'. v = CHR ''/'' # r' # a' \<and> r' \<in> set ''ABCDEFG'' \<and> a' \<in> accidentals)"
proof (cases "v = []")
  case True
  then show ?thesis by simp
next
  case False
  with assms have "v \<in> lang (Cat (Lit CHR ''/'') (Cat (Class ''ABCDEFG'')
                      (Cat (Opt (Alt (Lit CHR ''#'') (Lit CHR ''b''))) Empty)))"
    by (simp del: lang.simps(1,2,3,4))
  then obtain s1 v1 where 1: "v = s1 @ v1" "s1 \<in> lang (Lit CHR ''/'')"
    "v1 \<in> lang (Cat (Class ''ABCDEFG'') (Cat (Opt (Alt (Lit CHR ''#'') (Lit CHR ''b''))) Empty))"
    by (rule lang_CatE)
  from 1(3) obtain s2 v2 where 2: "v1 = s2 @ v2" "s2 \<in> lang (Class ''ABCDEFG'')"
    "v2 \<in> lang (Cat (Opt (Alt (Lit CHR ''#'') (Lit CHR ''b''))) Empty)"
    by (rule lang_CatE)
  from 2(3) obtain s3 v3 where 3: "v2 = s3 @ v3"
    "s3 \<in> lang (Opt (Alt (Lit CHR ''#'') (Lit CHR ''b'')))" "v3 \<in> lang Empty"
    by (rule lang_CatE)
  from 1(2) have s1: "s1 = ''/''" by simp
  from 2(2) obtain r' where s2: "s2 = [r']" "r' \<in> set ''ABCDEFG''"
    unfolding lang.simps by blast
  from 3(3) have "v3 = []" by simp
  with 3(1) 3(2) have "v2 \<in> accidentals" by (simp only: lang_accidental append_Nil2)
  with 1(1) 2(1) s1 s2 show ?thesis by simp
qed

lemma lang_chordRegex:
  assumes "x \<in> lang chordRegex"
  shows "\<exists>r a q v. x = r # a @ q @ v \<and> r \<in> set ''ABCDEFG'' \<and> a \<in> accidentals \<and>
           q \<in> insert [] (set regex_suffixes) \<and>
           (v = [] \<or> (\<exists>r' a'. v = CHR ''/'' # r' # a' \<and> r' \<in> set ''ABCDEFG'' \<and> a' \<in> accidentals))"
proof -
  let ?A = "Opt (Alt (Lit CHR ''#'') (Lit CHR ''b''))"
  let ?Q = "Opt (alts (map str regex_suffixes))"
  let ?V = "Opt (cats [Lit CHR ''/'', Class ''ABCDEFG'', ?A])"
  from assms have "x \<in> lang (Cat WordBoundary (Cat (Class ''ABCDEFG'') (Cat ?A (Cat ?Q
                      (Cat ?V (Cat WordBoundary Empty))))))"
    unfolding chordRegex_def cats.simps(2) [of _ "_ # _"] cats.simps(2) [of _ "[]"] cats.simps(1) .
  then obtain s0 x0 where 0: "x = s0 @ x0" "s0 \<in> lang WordBoundary"
    "x0 \<in> lang (Cat (Class ''ABCDEFG'') (Cat ?A (Cat ?Q (Cat ?V (Cat WordBoundary Empty)))))"
    by (rule lang_CatE)
  from 0(3) obtain s1 x1 where 1: "x0 = s1 @ x1" "s1 \<in> lang (Class ''ABCDEFG'')"
    "x1 \<in> lang (Cat ?A (Cat ?Q (Cat ?V (Cat WordBoundary Empty))))"
    by (rule lang_CatE)
  from 1(3) obtain a x2 where 2: "x1 = a @ x2" "a \<in> lang ?A"
    "x2 \<in> lang (Cat ?Q (Cat ?V (Cat WordBoundary Empty)))"
    by (rule lang_CatE)
  from 2(3) obtain q x3 where 3: "x2 = q @ x3" "q \<in> lang ?Q"
    "x3 \<in> lang (Cat ?V (Cat WordBoundary Empty))"
    by (rule lang_CatE)
  from 3(3) obtain v x4 where 4: "x3 = v @ x4" "v \<in> lang ?V"
    "x4 \<in> lang (Cat WordBoundary Empty)"
    by (rule lang_CatE)
  from 0(2) have s0: "s0 = []" by simp
  from 4(3) have x4: "x4 = []" by simp
  from 1(2) obtain r where r: "s1 = [r]" "r \<in> set ''ABCDEFG''"
    unfolding lang.simps by blast
  from 2(2) have a: "a \<in> accidentals" by (simp only: lang_accidental)
  from 3(2) have q: "q \<in> insert [] (set regex_suffixes)"
    by (simp only: lang.simps(5) lang_suffixes)
  from 0(1) 1(1) 2(1) 3(1) 4(1) s0 x4 r have "x = r # a @ q @ v" by simp
  with r(2) a q lang_inversion [OF 4(2)] show ?thesis by blast
qed

lemma root_props: "r \<in> set ''ABCDEFG'' \<Longrightarrow> ToUpper_byte r = [r] \<and> chord_char r"
  by (auto simp: ToUpper_byte_def utf8_encode_def unicode_ToUpper_def chord_char_def printable_def)

lemma accidental_props: "a \<in> accidentals \<Longrightarrow> \<forall>c \<in> set a. chord_char c"
  by (auto simp: accidentals_def chord_char_def printable_def)

lemma regex_suffixes_chars: "\<forall>q \<in> set regex_suffixes. \<forall>c \<in> set q. chord_char c"
  by (simp add: regex_suffixes_def chord_char_def printable_def)

lemma part_form_id:
  assumes "ToUpper_byte r = [r]" "\<forall>c \<in> set (r # rest). chord_char c"
  shows "part_form (r # rest) = r # rest"
proof -
  have "map (\<lambda>c. if c = CHR ''M'' then CHR ''m'' else c) (r # rest) = r # rest"
    using assms(2) by (intro map_idI) (auto simp: chord_char_def)
  with assms(1) show ?thesis by (simp add: part_form_def ReplaceAll_def)
qed

lemma chord_chars_no_slash: "\<forall>c \<in> set s. chord_char c \<Longrightarrow> CHR ''/'' \<notin> set s"
  by (auto simp: chord_char_def)

lemma chordRegex_match_nonempty:
  assumes "find_match chordRegex s pos = Some (b, e)"
  shows "b < e"
proof -
  from assms obtain "b \<le> length s" "e \<in> set (ends chordRegex s b)"
    by (auto simp: find_match_def split: option.splits dest!: find_SomeD)
  then have "take (e - b) (drop b s) \<in> lang chordRegex" by (intro ends_lang)
  from lang_chordRegex [OF this] have "take (e - b) (drop b s) \<noteq> []" by auto
  then show ?thesis by (cases "b < e") auto
qed

lemma token_canonical:
  assumes "x \<in> lang chordRegex"
  shows "normalizeChord x = Some x"
proof -
  from lang_chordRegex [OF assms] obtain r a q v where
    x: "x = r # a @ q @ v" and r: "r \<in> set ''ABCDEFG''" and a: "a \<in> accidentals" and
    q: "q \<in> insert [] (set regex_suffixes)" and
    v: "v = [] \<or> (\<exists>r' a'. v = CHR ''/'' # r' # a' \<and> r' \<in> set ''ABCDEFG'' \<and> a' \<in> accidentals)"
    by blast
  let ?p = "r # a @ q"
  have up: "ToUpper_byte r = [r]" using root_props [OF r] by simp
  have pc: "\<forall>c \<in> set ?p. chord_char c"
    using root_props [OF r] accidental_props [OF a] q regex_suffixes_chars by auto
  have pf: "part_form ?p = ?p" using part_form_id [OF up] pc by simp
  have ps: "CHR ''/'' \<notin> set ?p" using pc by (rule chord_chars_no_slash)
  from v show ?thesis
  proof
    assume "v = []"
    with x have xp: "x = ?p" by simp
    have "last ?p \<in> set ?p" by (rule last_in_set) simp
    with pc have "chord_char (last ?p)" by blast
    then have l: "printable (last ?p)" by (simp only: chord_char_def)
    have "chord_char r" using root_props [OF r] by simp
    then have h: "printable (hd ?p)" by (simp add: chord_char_def)
    have "TrimSpace ?p = ?p" using h l by (intro TrimSpace_id) simp_all
    with normalizeChord_no_slash [of ?p] ps pf xp show ?thesis by simp
  next
    assume "\<exists>r' a'. v = CHR ''/'' # r' # a' \<and> r' \<in> set ''ABCDEFG'' \<and> a' \<in> accidentals"
    then obtain r' a' where v': "v = CHR ''/'' # r' # a'" and r': "r' \<in> set ''ABCDEFG''"
      and a': "a' \<in> accidentals" by blast
    let ?i = "r' # a'"
    have up': "ToUpper_byte r' = [r']" using root_props [OF r'] by simp
    have ic: "\<forall>c \<in> set ?i. chord_char c"
      using root_props [OF r'] accidental_props [OF a'] by auto
    have "part_form ?i = ?i" using part_form_id [OF up'] ic by simp
    moreover have "CHR ''/'' \<notin> set ?i" using ic by (rule chord_chars_no_slash)
    then have "Split ?i CHR ''/'' = [?i]" by (rule Split_no_sep)
    moreover have xs: "x = ?p @ CHR ''/'' # ?i" using x v' by simp
    moreover have "TrimSpace x = x"
    proof (rule TrimSpace_id)
      show "x \<noteq> []" using x by simp
      have "chord_char r" using root_props [OF r] by simp
      then show "printable (hd x)" using x by (simp add: chord_char_def)
      have "last x = last ?i" unfolding xs by (simp only: last_append last_ConsR list.distinct if_False last.simps)
      moreover have "last ?i \<in> set ?i" by (rule last_in_set) simp
      then have "chord_char (last ?i)" using ic by blast
      ultimately show "printable (last x)" by (simp only: chord_char_def)
    qed
    ultimately show ?thesis
      using normalizeChord_slash [of x ?p ?i] ps pf by simp
  qed
qed

text \<open>
  C4: on every token that the recognizer returns, for every line, the canonicalizer is
  idempotent: it returns a key, and that key is mapped to itself. (A match of \<open>chordRegex\<close>
  starts with a capital root letter, has no \<open>M\<close> and no white space, and has at most one
  \<open>/\<close>, followed by a root; \<open>normalizeChord\<close> returns such a string as it is.)
\<close>

theorem normalizeChord_idempotent:
  assumes "x \<in> set (FindAllString chordRegex line)"
  shows "\<exists>y. normalizeChord x = Some y \<and> normalizeChord y = Some y"
  using assms token_canonical [of x] FindAllString_lang [of x chordRegex line] by simp

theorem normalizeChord_idempotent_witness:
  "''Bm/D'' \<in> set (FindAllString chordRegex ''G Bm/D Cmaj7'') \<and>
   (\<exists>y. normalizeChord ''Bm/D'' = Some y \<and> normalizeChord y = Some y)"
proof -
  have "FindAllString chordRegex ''G Bm/D Cmaj7'' = [''G'', ''Bm/D'', ''Cmaj7'']" by code_simp
  then have m: "''Bm/D'' \<in> set (FindAllString chordRegex ''G Bm/D Cmaj7'')" by simp
  from m normalizeChord_idempotent [OF m] show ?thesis by blast
qed

section \<open>Properties of the scan\<close>

lemma scan_matches_fold:
  "scan_matches ms t = Some (fold record_key (List.map_filter normalizeChord ms) t)"
proof (induction ms arbitrary: t)
  case Nil
  show ?case by simp
next
  case (Cons m ms)
  obtain y where "normalizeChord m = Some y" using normalizeChord_total by blast
  with Cons.IH show ?case by simp
qed

lemma scan_lines_fold: "scan_lines ls t = Some (fold record_key (corpus_keys ls) t)"
  by (induction ls arbitrary: t) (simp_all add: corpus_keys_def line_keys_def scan_matches_fold)

lemma scan_files_lines: "scan_files fs t = scan_lines (concat fs) t"
proof (induction fs arbitrary: t)
  case Nil
  show ?case by simp
next
  case (Cons f fs)
  have "scan_lines (f @ concat fs) t = Some (fold record_key (corpus_keys (concat fs)) (fold record_key (corpus_keys f) t))"
    by (simp add: scan_lines_fold corpus_keys_def)
  with Cons.IH show ?case by (simp add: scan_lines_fold)
qed

lemma int_wrap_id: "- (2 ^ 63) \<le> x \<Longrightarrow> x < 2 ^ 63 \<Longrightarrow> int_wrap x = x"
  by (simp add: int_wrap_def)

lemma count_of_record_key:
  "count_of (record_key x t) k =
     (if x \<noteq> [] \<and> k = x then int_wrap (count_of t x + 1) else count_of t k)"
  by (simp add: record_key_def count_of_def)

lemma count_of_fold:
  assumes "\<forall>k. 0 \<le> count_of t k \<and> count_of t k + int (length ks) < 2 ^ 63"
  shows "count_of (fold record_key ks t) k =
           count_of t k + (if k = [] then 0 else int (count_list ks k))"
  using assms
proof (induction ks arbitrary: t)
  case Nil
  show ?case by simp
next
  case (Cons x ks)
  let ?t = "record_key x t"
  have step: "count_of ?t c = (if x \<noteq> [] \<and> c = x then count_of t x + 1 else count_of t c)" for c
  proof -
    from Cons.prems have "0 \<le> count_of t x" "count_of t x + 1 < 2 ^ 63"
      by (auto dest: spec [of _ x])
    then have "int_wrap (count_of t x + 1) = count_of t x + 1" by (intro int_wrap_id) simp_all
    then show ?thesis by (simp add: count_of_record_key)
  qed
  have "\<forall>c. 0 \<le> count_of ?t c \<and> count_of ?t c + int (length ks) < 2 ^ 63"
  proof
    fix c
    from Cons.prems have "0 \<le> count_of t c" "count_of t c + int (length ks) + 1 < 2 ^ 63"
      by (auto dest: spec [of _ c])
    moreover from Cons.prems have "0 \<le> count_of t x" "count_of t x + int (length ks) + 1 < 2 ^ 63"
      by (auto dest: spec [of _ x])
    ultimately show "0 \<le> count_of ?t c \<and> count_of ?t c + int (length ks) < 2 ^ 63"
      by (simp add: step)
  qed
  from Cons.IH [OF this] show ?case by (auto simp: step)
qed

lemma count_of_empty: "count_of Map.empty k = 0"
  by (simp add: count_of_def)

lemma count_of_scan:
  assumes "int (length ks) < 2 ^ 63"
  shows "count_of (fold record_key ks Map.empty) k = (if k = [] then 0 else int (count_list ks k))"
  using count_of_fold [of Map.empty ks k] assms by (simp add: count_of_empty)

lemma dom_fold_record_key: "dom (fold record_key ks t) = dom t \<union> (set ks - {[]})"
  by (induction ks arbitrary: t) (auto simp: record_key_def)

lemma corpus_keys_replicate_C: "corpus_keys (replicate n ''C'') = replicate n ''C''"
proof -
  have "line_keys ''C'' = [''C'']" by code_simp
  then show ?thesis by (induction n) (simp_all add: corpus_keys_def)
qed

lemma count_list_replicate_same: "count_list (replicate n x) x = n"
  by (induction n) simp_all

lemma count_replicate_below:
  assumes "int n < 2 ^ 63"
  shows "count_of (fold record_key (replicate n ''C'') Map.empty) ''C'' = int n"
  using count_of_scan [OF _, of "replicate n ''C''" "''C''"] assms
  by (simp add: count_list_replicate_same)

lemma count_replicate_wrap:
  assumes "int n = 2 ^ 63 - 1"
  shows "count_of (fold record_key (replicate (Suc n) ''C'') Map.empty) ''C'' = - (2 ^ 63)"
proof -
  have "int n < 2 ^ 63" using assms by simp
  then have c: "count_of (fold record_key (replicate n ''C'') Map.empty) ''C'' = 2 ^ 63 - 1"
    using count_replicate_below assms by simp
  have "replicate (Suc n) ''C'' = replicate n ''C'' @ [''C'']"
    by (simp only: replicate_append_same replicate_Suc)
  then have "fold record_key (replicate (Suc n) ''C'') Map.empty
             = record_key ''C'' (fold record_key (replicate n ''C'') Map.empty)"
    by (simp only: fold_append comp_apply fold_simps)
  then show ?thesis
    by (simp only: count_of_record_key c) (simp add: int_wrap_def)
qed

text \<open>
  C9 (as the spec states it, refuted): the count is a Go \<open>int\<close>, and \<open>++\<close> wraps. A
  scan of one file of \<open>2^63 - 1\<close> lines \<open>"C"\<close> leaves the count of \<open>C\<close> at \<open>2^63 - 1\<close>; with
  one more such line the next \<open>record_key\<close> takes it to \<open>-2^63\<close>: the count has decreased
  and is negative.
\<close>

theorem chordCounts_wraps_at_int_max:
  "record_key ''C'' [''C'' \<mapsto> 2 ^ 63 - 1] = [''C'' \<mapsto> - (2 ^ 63)] \<and>
   map_option (\<lambda>t. count_of t ''C'') (scan_files [replicate (2 ^ 63 - 1) ''C''] Map.empty)
     = Some (2 ^ 63 - 1) \<and>
   map_option (\<lambda>t. count_of t ''C'') (scan_files [replicate (2 ^ 63) ''C''] Map.empty)
     = Some (- (2 ^ 63))"
proof -
  have 1: "record_key ''C'' [''C'' \<mapsto> 2 ^ 63 - 1] = [''C'' \<mapsto> - (2 ^ 63)]"
    by (simp add: record_key_def count_of_def int_wrap_def)
  have s: "scan_files [replicate k ''C''] Map.empty
           = Some (fold record_key (replicate k ''C'') Map.empty)" for k
    by (simp add: scan_lines_fold corpus_keys_replicate_C)
  have n: "int (2 ^ 63 - 1) = 2 ^ 63 - 1" by simp
  have 2: "count_of (fold record_key (replicate (2 ^ 63 - 1) ''C'') Map.empty) ''C'' = 2 ^ 63 - 1"
    using count_replicate_below [of "2 ^ 63 - 1"] n by simp
  have "Suc (2 ^ 63 - 1) = (2 ^ 63 :: nat)" by simp
  with count_replicate_wrap [OF n]
  have 3: "count_of (fold record_key (replicate (2 ^ 63) ''C'') Map.empty) ''C'' = - (2 ^ 63)"
    by (simp only:)
  from 1 2 3 show ?thesis by (simp only: s option.map)
qed

text \<open>
  C9 (amended): \<open>record_key\<close> leaves the table as it is for the empty key; for any other
  key it stores 1 when the key is new and otherwise the old count plus 1, wrapped to 64
  bits: exactly one more for every count from 0 below \<open>2^63 - 1\<close>. The table of a scan is
  the result of these operations alone, one per recognized token, starting from the empty
  map; the table after \<open>i\<close> of them is \<open>fold record_key (take i ks) Map.empty\<close>. For a corpus
  of fewer than \<open>2^63\<close> tokens, every count of every such table is non-negative, none is
  smaller after the next operation, and every stored count is at least 1.
\<close>

theorem chordCounts_record_only:
  "record_key [] t = t \<and>
   (k \<noteq> [] \<longrightarrow> t k = None \<longrightarrow> record_key k t = t(k \<mapsto> 1)) \<and>
   (k \<noteq> [] \<longrightarrow> t k = Some n \<longrightarrow> record_key k t = t(k \<mapsto> int_wrap (n + 1))) \<and>
   (k \<noteq> [] \<longrightarrow> t k = Some n \<longrightarrow> 0 \<le> n \<longrightarrow> n < 2 ^ 63 - 1 \<longrightarrow>
      record_key k t = t(k \<mapsto> n + 1)) \<and>
   scan_files files Map.empty =
     Some (fold record_key (corpus_keys (concat files)) Map.empty) \<and>
   (int (length (corpus_keys (concat files))) < 2 ^ 63 \<longrightarrow>
      (\<forall>i < length (corpus_keys (concat files)). \<forall>c.
         0 \<le> count_of (fold record_key (take i (corpus_keys (concat files))) Map.empty) c \<and>
         0 \<le> count_of (fold record_key (take (Suc i) (corpus_keys (concat files))) Map.empty) c \<and>
         count_of (fold record_key (take i (corpus_keys (concat files))) Map.empty) c
           \<le> count_of (fold record_key (take (Suc i) (corpus_keys (concat files))) Map.empty) c) \<and>
      (\<forall>c m. fold record_key (corpus_keys (concat files)) Map.empty c = Some m \<longrightarrow> 1 \<le> m))"
proof -
  let ?ks = "corpus_keys (concat files)"
  have a: "record_key [] t = t" by (simp add: record_key_def)
  have b: "k \<noteq> [] \<longrightarrow> t k = None \<longrightarrow> record_key k t = t(k \<mapsto> 1)"
    by (simp add: record_key_def count_of_def int_wrap_def)
  have c: "k \<noteq> [] \<longrightarrow> t k = Some n \<longrightarrow> record_key k t = t(k \<mapsto> int_wrap (n + 1))"
    by (simp add: record_key_def count_of_def)
  have d: "k \<noteq> [] \<longrightarrow> t k = Some n \<longrightarrow> 0 \<le> n \<longrightarrow> n < 2 ^ 63 - 1 \<longrightarrow> record_key k t = t(k \<mapsto> n + 1)"
    by (simp add: record_key_def count_of_def int_wrap_id)
  have e: "scan_files files Map.empty = Some (fold record_key ?ks Map.empty)"
    by (simp add: scan_files_lines scan_lines_fold)
  have f: "0 \<le> count_of (fold record_key (take i ?ks) Map.empty) c \<and>
           0 \<le> count_of (fold record_key (take (Suc i) ?ks) Map.empty) c \<and>
           count_of (fold record_key (take i ?ks) Map.empty) c
             \<le> count_of (fold record_key (take (Suc i) ?ks) Map.empty) c"
    if len: "int (length ?ks) < 2 ^ 63" and i: "i < length ?ks" for i c
  proof -
    have 1: "int (length (take i ?ks)) < 2 ^ 63" using len by simp
    have 2: "int (length (take (Suc i) ?ks)) < 2 ^ 63" using len by simp
    have "take (Suc i) ?ks = take i ?ks @ [?ks ! i]" using i by (rule take_Suc_conv_app_nth)
    then have "count_list (take i ?ks) c \<le> count_list (take (Suc i) ?ks) c" by simp
    then show ?thesis
      unfolding count_of_scan [OF 1] count_of_scan [OF 2] by simp
  qed
  have g: "1 \<le> m" if len: "int (length ?ks) < 2 ^ 63"
    and m: "fold record_key ?ks Map.empty c = Some m" for c m
  proof -
    from m have "c \<in> dom (fold record_key ?ks Map.empty)" by blast
    then have c: "c \<in> set ?ks" "c \<noteq> []" by (simp_all add: dom_fold_record_key)
    then have "0 < count_list ?ks c" by (metis count_list_0_iff neq0_conv)
    moreover have "count_of (fold record_key ?ks Map.empty) c = m" using m by (simp add: count_of_def)
    ultimately show ?thesis using count_of_scan [OF len, of c] c(2) by simp
  qed
  from a b c d e f g show ?thesis by blast
qed

theorem chordCounts_record_only_witness:
  "record_key ''C'' Map.empty = [''C'' \<mapsto> 1] \<and>
   record_key ''C'' [''C'' \<mapsto> 1] = [''C'' \<mapsto> 2] \<and>
   int (length (corpus_keys (concat [[''C G'', ''C'']]))) < 2 ^ 63 \<and>
   0 < length (corpus_keys (concat [[''C G'', ''C'']])) \<and>
   count_of (fold record_key (take 0 (corpus_keys (concat [[''C G'', ''C'']]))) Map.empty) ''C''
     \<le> count_of (fold record_key (take (Suc 0) (corpus_keys (concat [[''C G'', ''C'']]))) Map.empty) ''C'' \<and>
   fold record_key (corpus_keys (concat [[''C G'', ''C'']])) Map.empty ''C'' = Some 2 \<and>
   (1::int) \<le> 2"
proof -
  have ks: "corpus_keys (concat [[''C G'', ''C'']]) = [''C'', ''G'', ''C'']" by code_simp
  have s: "fold record_key [''C'', ''G'', ''C''] Map.empty ''C'' = Some 2"
    by (simp add: record_key_def count_of_def int_wrap_def)
  have n: "''C'' \<noteq> []" "(Map.empty :: table) ''C'' = None" "[''C'' \<mapsto> 1::int] ''C'' = Some 1"
    "(0::int) \<le> 1" "(1::int) < 2 ^ 63 - 1" by simp_all
  have l: "int (length (corpus_keys (concat [[''C G'', ''C'']]))) < 2 ^ 63"
    "0 < length (corpus_keys (concat [[''C G'', ''C'']]))" unfolding ks by simp_all
  from chordCounts_record_only [of Map.empty "''C''" 1 "[[''C G'', ''C'']]"] n
  have 1: "record_key ''C'' Map.empty = [''C'' \<mapsto> 1]" by blast
  from chordCounts_record_only [of "[''C'' \<mapsto> 1]" "''C''" 1 "[[''C G'', ''C'']]"] n
  have "record_key ''C'' [''C'' \<mapsto> 1] = [''C'' \<mapsto> 1, ''C'' \<mapsto> 1 + 1]" by blast
  then have 2: "record_key ''C'' [''C'' \<mapsto> 1] = [''C'' \<mapsto> 2]" by simp
  from chordCounts_record_only [of Map.empty "''C''" 1 "[[''C G'', ''C'']]"] l
  have 3: "count_of (fold record_key (take 0 (corpus_keys (concat [[''C G'', ''C'']]))) Map.empty) ''C''
     \<le> count_of (fold record_key (take (Suc 0) (corpus_keys (concat [[''C G'', ''C'']]))) Map.empty) ''C''"
    by blast
  have 4: "fold record_key (corpus_keys (concat [[''C G'', ''C'']])) Map.empty ''C'' = Some 2"
    using s by (simp only: ks)
  from chordCounts_record_only [of Map.empty "''C''" 1 "[[''C G'', ''C'']]"] l 4
  have 5: "(1::int) \<le> 2" by blast
  from 1 2 3 4 5 l show ?thesis by blast
qed

section \<open>Properties of the report\<close>

lemma frequencies_eq:
  assumes "set ks \<subseteq> dom t"
  shows "map fst (frequencies t ks) = ks \<and> (\<forall>e \<in> set (frequencies t ks). t (fst e) = Some (snd e))"
  using assms by (induction ks) (auto simp: frequencies_def)

lemma set_frequencies:
  assumes "range_order t ks"
  shows "set (frequencies t ks) = {(k, n). t k = Some n}"
proof -
  from assms have sub: "set ks \<subseteq> dom t" and all: "dom t \<subseteq> set ks"
    by (simp_all add: range_order_def)
  show ?thesis
  proof (intro set_eqI iffI)
    fix e assume "e \<in> set (frequencies t ks)"
    with frequencies_eq [OF sub] show "e \<in> {(k, n). t k = Some n}" by (cases e) auto
  next
    fix e assume e: "e \<in> {(k, n). t k = Some n}"
    then have "fst e \<in> set ks" using all by (cases e) auto
    then have "fst e \<in> fst ` set (frequencies t ks)"
      using frequencies_eq [OF sub] by (metis set_map)
    then obtain e' where e': "e' \<in> set (frequencies t ks)" "fst e' = fst e" by auto
    with frequencies_eq [OF sub] have "t (fst e) = Some (snd e')" by auto
    with e have "snd e' = snd e" by (cases e) auto
    with e' show "e \<in> set (frequencies t ks)" by (metis prod.expand)
  qed
qed

lemma report_entries:
  assumes ro: "range_order t ks" and so: "sort_Slice Count_greater (frequencies t ks) ys"
  shows "set ys = {(k, n). t k = Some n}" and "distinct (map fst ys)"
    and "length ys = card (dom t)" and "sorted_wrt (\<lambda>a b. snd b \<le> snd a) ys"
proof -
  from ro have sub: "set ks \<subseteq> dom t" and d: "distinct ks" and dom: "set ks = dom t"
    by (simp_all add: range_order_def)
  from so have m: "mset ys = mset (frequencies t ks)"
    and s: "sorted_wrt (\<lambda>a b. \<not> Count_greater b a) ys"
    by (simp_all add: sort_Slice_def)
  from m have "set ys = set (frequencies t ks)" by (rule mset_eq_setD)
  then show "set ys = {(k, n). t k = Some n}" by (simp add: set_frequencies [OF ro])
  from m have "mset (map fst ys) = mset (map fst (frequencies t ks))" by simp
  then have mk: "mset (map fst ys) = mset ks" using frequencies_eq [OF sub] by simp
  then show "distinct (map fst ys)" using d by (simp add: mset_eq_imp_distinct_iff [OF mk])
  from mk have "length ys = length ks" using mset_eq_length by fastforce
  then show "length ys = card (dom t)" using d dom by (metis distinct_card)
  from s show "sorted_wrt (\<lambda>a b. snd b \<le> snd a) ys"
    by (rule sorted_wrt_mono_rel [rotated]) (simp add: Count_greater_def)
qed

text \<open>
  \<open>digits\<close> writes a number in base ten: reading the digits back gives the number.
\<close>

lemma digits_value:
  "foldl (\<lambda>a c. 10 * a + (of_char c - 48)) 0 (digits n) = n \<and>
   (\<forall>c \<in> set (digits n). 48 \<le> (of_char c :: nat) \<and> (of_char c :: nat) \<le> 57)"
proof (induction n rule: digits.induct)
  case (1 n)
  show ?case
  proof (cases "n < 10")
    case True
    then show ?thesis by (subst (1 2) digits.simps) simp
  next
    case False
    have m: "n mod 10 < 10" by simp
    from False "1.IH" m show ?thesis
      by (subst (1 2) digits.simps) simp
  qed
qed

text \<open>
  C8: for every order in which \<open>range\<close> visits the table and every result of
  \<open>sort.Slice\<close>, the report is the line \<open>Chord Usage Statistics\<close>, the line of 22 \<open>=\<close>
  signs, and then one line \<open>key: count\<close> (the count in decimal) for every entry of the
  table and for nothing else, each key once, the counts never increasing down the list.
\<close>

theorem report_layout:
  assumes "range_order chordCounts ks"
    and "sort_Slice Count_greater (frequencies chordCounts ks) ys"
  shows "outputLines ys =
           ''Chord Usage Statistics'' # ''======================'' #
           map (\<lambda>(k, n). k @ '': '' @ format_d n) ys \<and>
         length (outputLines ys) = 2 + card (dom chordCounts) \<and>
         set ys = {(k, n). chordCounts k = Some n} \<and>
         distinct (map fst ys) \<and>
         sorted_wrt (\<lambda>a b. snd a \<ge> snd b) ys"
proof -
  have "map Sprintf_line ys = map (\<lambda>(k, n). k @ '': '' @ format_d n) ys"
    by (rule map_cong) (auto simp: Sprintf_line_def)
  then show ?thesis
    using report_entries [OF assms] by (simp add: outputLines_def)
qed

theorem report_layout_witness:
  "range_order [''C'' \<mapsto> 3, ''Am'' \<mapsto> 1] [''Am'', ''C''] \<and>
   sort_Slice Count_greater (frequencies [''C'' \<mapsto> 3, ''Am'' \<mapsto> 1] [''Am'', ''C''])
     [(''C'', 3), (''Am'', 1)] \<and>
   outputLines [(''C'', 3), (''Am'', 1)] =
     [''Chord Usage Statistics'', ''======================'', ''C: 3'', ''Am: 1''] \<and>
   length (outputLines [(''C'', 3), (''Am'', 1)]) = 2 + card (dom [''C'' \<mapsto> 3::int, ''Am'' \<mapsto> 1])"
proof -
  have r: "range_order [''C'' \<mapsto> 3, ''Am'' \<mapsto> 1] [''Am'', ''C'']"
    by (auto simp: range_order_def)
  have s: "sort_Slice Count_greater (frequencies [''C'' \<mapsto> 3, ''Am'' \<mapsto> 1] [''Am'', ''C''])
     [(''C'', 3), (''Am'', 1)]"
    by (simp add: sort_Slice_def frequencies_def Count_greater_def)
  have o: "outputLines [(''C'', 3), (''Am'', 1)] =
     [''Chord Usage Statistics'', ''======================'', ''C: 3'', ''Am: 1'']"
    by code_simp
  from report_layout [OF r s] r s o show ?thesis by simp
qed

section \<open>The order of processing\<close>

lemma record_key_commute: "record_key a (record_key b t) = record_key b (record_key a t)"
proof (cases "a = b")
  case True
  then show ?thesis by simp
next
  case False
  then have "count_of (t(b \<mapsto> v)) a = count_of t a" "count_of (t(a \<mapsto> v)) b = count_of t b" for v
    by (simp_all add: count_of_def)
  with False show ?thesis by (auto simp: record_key_def fun_upd_twist)
qed

lemma fold_record_key_mset:
  assumes "mset ks = mset ks'"
  shows "fold record_key ks t = fold record_key ks' t"
proof -
  have "fold record_key ks = fold record_key ks'"
    by (rule fold_multiset_equiv) (auto simp: fun_eq_iff record_key_commute assms)
  then show ?thesis by simp
qed

lemma mset_corpus_keys:
  assumes "mset ls = mset ls'"
  shows "mset (corpus_keys ls) = mset (corpus_keys ls')"
proof -
  have "mset (corpus_keys l) = sum_mset (image_mset (\<lambda>x. mset (line_keys x)) (mset l))" for l
    by (induction l) (simp_all add: corpus_keys_def)
  with assms show ?thesis by simp
qed

lemma sorted_desc_unique:
  fixes xs ys :: "int list"
  assumes "mset xs = mset ys" "sorted_wrt (\<lambda>a b. b \<le> a) xs" "sorted_wrt (\<lambda>a b. b \<le> a) ys"
  shows "xs = ys"
proof -
  have "sorted (rev xs)" "sorted (rev ys)" using assms(2,3) by (simp_all add: sorted_wrt_rev)
  moreover have "mset (rev xs) = mset (rev ys)" using assms(1) by simp
  ultimately have "rev xs = rev ys" by (metis properties_for_sort)
  then show ?thesis by simp
qed

text \<open>
  C6 (as the spec states it, refuted): two runs over the corpus of the single line
  \<open>"Am F"\<close> build the same table, but \<open>range\<close> may visit \<open>Am\<close> first in one run and \<open>F\<close>
  first in the other. The two entries have equal counts, so both slices are already sorted
  and \<open>sort.Slice\<close> (which for two elements compares once and swaps nothing) leaves each as
  it is: the two reports differ.
\<close>

theorem report_order_differs_between_runs:
  "scan_files [[''Am F'']] Map.empty = Some [''Am'' \<mapsto> 1, ''F'' \<mapsto> 1] \<and>
   range_order [''Am'' \<mapsto> 1, ''F'' \<mapsto> 1] [''Am'', ''F''] \<and>
   frequencies [''Am'' \<mapsto> 1, ''F'' \<mapsto> 1] [''Am'', ''F''] = [(''Am'', 1), (''F'', 1)] \<and>
   sort_Slice Count_greater [(''Am'', 1), (''F'', 1)] [(''Am'', 1), (''F'', 1)] \<and>
   range_order [''Am'' \<mapsto> 1, ''F'' \<mapsto> 1] [''F'', ''Am''] \<and>
   frequencies [''Am'' \<mapsto> 1, ''F'' \<mapsto> 1] [''F'', ''Am''] = [(''F'', 1), (''Am'', 1)] \<and>
   sort_Slice Count_greater [(''F'', 1), (''Am'', 1)] [(''F'', 1), (''Am'', 1)] \<and>
   outputLines [(''Am'', 1), (''F'', 1)] \<noteq> outputLines [(''F'', 1), (''Am'', 1)]"
proof -
  have ks: "corpus_keys (concat [[''Am F'']]) = [''Am'', ''F'']" by code_simp
  have "scan_files [[''Am F'']] Map.empty = Some (fold record_key [''Am'', ''F''] Map.empty)"
    unfolding scan_files_lines scan_lines_fold ks ..
  moreover have "fold record_key [''Am'', ''F''] Map.empty = [''Am'' \<mapsto> 1, ''F'' \<mapsto> 1]"
    by (simp add: record_key_def count_of_def int_wrap_def)
  ultimately have 1: "scan_files [[''Am F'']] Map.empty = Some [''Am'' \<mapsto> 1, ''F'' \<mapsto> 1]"
    by simp
  have 2: "range_order [''Am'' \<mapsto> 1, ''F'' \<mapsto> 1] [''Am'', ''F'']"
    "range_order [''Am'' \<mapsto> 1, ''F'' \<mapsto> 1] [''F'', ''Am'']"
    by (auto simp: range_order_def)
  have 3: "frequencies [''Am'' \<mapsto> 1, ''F'' \<mapsto> 1] [''Am'', ''F''] = [(''Am'', 1), (''F'', 1)]"
    "frequencies [''Am'' \<mapsto> 1, ''F'' \<mapsto> 1] [''F'', ''Am''] = [(''F'', 1), (''Am'', 1)]"
    by (simp_all add: frequencies_def)
  have 4: "sort_Slice Count_greater [(''Am'', 1), (''F'', 1)] [(''Am'', 1), (''F'', 1)]"
    "sort_Slice Count_greater [(''F'', 1), (''Am'', 1)] [(''F'', 1), (''Am'', 1)]"
    by (simp_all add: sort_Slice_def Count_greater_def)
  have 5: "outputLines [(''Am'', 1), (''F'', 1)] \<noteq> outputLines [(''F'', 1), (''Am'', 1)]"
    by (simp add: outputLines_def Sprintf_line_def)
  from 1 2 3 4 5 show ?thesis by blast
qed

text \<open>
  C6 (amended): the table does not depend on the order in which the files and their lines
  are processed. Two runs over corpora with the same lines, whatever the order of the
  files, of the lines, of the \<open>range\<close> loop and whatever \<open>sort.Slice\<close> returns, give reports
  with the same lines (as a multiset) and the same sequence of counts. Only the order of
  the entries that have equal counts is open.
\<close>

theorem report_same_up_to_ties:
  assumes "mset (concat files') = mset (concat files)"
    and "scan_files files Map.empty = Some t"
    and "scan_files files' Map.empty = Some t'"
    and "range_order t ks" and "sort_Slice Count_greater (frequencies t ks) ys"
    and "range_order t' ks'" and "sort_Slice Count_greater (frequencies t' ks') ys'"
  shows "t' = t \<and> mset (outputLines ys') = mset (outputLines ys) \<and>
         map snd ys' = map snd ys \<and> length (outputLines ys') = length (outputLines ys)"
proof -
  have "mset (corpus_keys (concat files')) = mset (corpus_keys (concat files))"
    using assms(1) by (rule mset_corpus_keys)
  then have "fold record_key (corpus_keys (concat files')) Map.empty
             = fold record_key (corpus_keys (concat files)) Map.empty"
    by (rule fold_record_key_mset)
  with assms(2,3) have t: "t' = t" by (simp add: scan_files_lines scan_lines_fold)
  note e = report_entries [OF assms(4,5)] and e' = report_entries [OF assms(6,7)]
  have "distinct ys" "distinct ys'" using e(2) e'(2) by (simp_all add: distinct_map)
  moreover have "set ys' = set ys" using e(1) e'(1) t by simp
  ultimately have m: "mset ys' = mset ys" by (simp add: set_eq_iff_mset_eq_distinct)
  then have ml: "mset (map Sprintf_line ys') = mset (map Sprintf_line ys)" by simp
  have "mset (map snd ys') = mset (map snd ys)" using m by simp
  moreover have "sorted_wrt (\<lambda>a b. b \<le> a) (map snd ys')" "sorted_wrt (\<lambda>a b. b \<le> a) (map snd ys)"
    using e(4) e'(4) by (simp_all add: sorted_wrt_map)
  ultimately have s: "map snd ys' = map snd ys" by (rule sorted_desc_unique)
  have "length ys' = length ys" using m by (rule mset_eq_length)
  with t ml s show ?thesis by (simp add: outputLines_def)
qed

theorem report_same_up_to_ties_witness:
  "mset (concat [[''F'', ''Am'']]) = mset (concat [[''Am''], [''F'']]) \<and>
   scan_files [[''Am''], [''F'']] Map.empty = Some [''Am'' \<mapsto> 1, ''F'' \<mapsto> 1] \<and>
   scan_files [[''F'', ''Am'']] Map.empty = Some [''F'' \<mapsto> 1, ''Am'' \<mapsto> 1] \<and>
   range_order [''Am'' \<mapsto> 1, ''F'' \<mapsto> 1] [''Am'', ''F''] \<and>
   sort_Slice Count_greater (frequencies [''Am'' \<mapsto> 1, ''F'' \<mapsto> 1] [''Am'', ''F''])
     [(''Am'', 1), (''F'', 1)] \<and>
   range_order [''F'' \<mapsto> 1, ''Am'' \<mapsto> 1] [''F'', ''Am''] \<and>
   sort_Slice Count_greater (frequencies [''F'' \<mapsto> 1, ''Am'' \<mapsto> 1] [''F'', ''Am''])
     [(''F'', 1), (''Am'', 1)] \<and>
   [''F'' \<mapsto> 1::int, ''Am'' \<mapsto> 1] = [''Am'' \<mapsto> 1, ''F'' \<mapsto> 1] \<and>
   mset (outputLines [(''F'', 1), (''Am'', 1)]) = mset (outputLines [(''Am'', 1), (''F'', 1)]) \<and>
   map snd [(''F'', 1::int), (''Am'', 1)] = map snd [(''Am'', 1::int), (''F'', 1)]"
proof -
  have 1: "mset (concat [[''F'', ''Am'']]) = mset (concat [[''Am''], [''F'']])" by simp
  have k1: "corpus_keys (concat [[''Am''], [''F'']]) = [''Am'', ''F'']" by code_simp
  have k2: "corpus_keys (concat [[''F'', ''Am'']]) = [''F'', ''Am'']" by code_simp
  have "scan_files [[''Am''], [''F'']] Map.empty = Some (fold record_key [''Am'', ''F''] Map.empty)"
    unfolding scan_files_lines scan_lines_fold k1 ..
  moreover have "fold record_key [''Am'', ''F''] Map.empty = [''Am'' \<mapsto> 1, ''F'' \<mapsto> 1]"
    by (simp add: record_key_def count_of_def int_wrap_def)
  ultimately have 2: "scan_files [[''Am''], [''F'']] Map.empty = Some [''Am'' \<mapsto> 1, ''F'' \<mapsto> 1]"
    by simp
  have "scan_files [[''F'', ''Am'']] Map.empty = Some (fold record_key [''F'', ''Am''] Map.empty)"
    unfolding scan_files_lines scan_lines_fold k2 ..
  moreover have "fold record_key [''F'', ''Am''] Map.empty = [''F'' \<mapsto> 1, ''Am'' \<mapsto> 1]"
    by (simp add: record_key_def count_of_def int_wrap_def)
  ultimately have 3: "scan_files [[''F'', ''Am'']] Map.empty = Some [''F'' \<mapsto> 1, ''Am'' \<mapsto> 1]"
    by simp
  have 4: "range_order [''Am'' \<mapsto> 1, ''F'' \<mapsto> 1] [''Am'', ''F'']"
    and 6: "range_order [''F'' \<mapsto> 1, ''Am'' \<mapsto> 1] [''F'', ''Am'']"
    by (auto simp: range_order_def)
  have 5: "sort_Slice Count_greater (frequencies [''Am'' \<mapsto> 1, ''F'' \<mapsto> 1] [''Am'', ''F''])
     [(''Am'', 1), (''F'', 1)]"
    and 7: "sort_Slice Count_greater (frequencies [''F'' \<mapsto> 1, ''Am'' \<mapsto> 1] [''F'', ''Am''])
     [(''F'', 1), (''Am'', 1)]"
    by (simp_all add: sort_Slice_def frequencies_def Count_greater_def)
  from report_same_up_to_ties [OF 1 2 3 4 5 6 7] 1 2 3 4 5 6 7 show ?thesis by blast
qed

section \<open>The example of two lines\<close>

lemma example_table:
  "scan_lines [''C G Am F'', ''C C G''] Map.empty =
     Some [''C'' \<mapsto> 3, ''G'' \<mapsto> 2, ''Am'' \<mapsto> 1, ''F'' \<mapsto> 1]"
proof -
  have ks: "corpus_keys [''C G Am F'', ''C C G''] = [''C'', ''G'', ''Am'', ''F'', ''C'', ''C'', ''G'']"
    by code_simp
  have "fold record_key [''C'', ''G'', ''Am'', ''F'', ''C'', ''C'', ''G''] Map.empty
        = [''C'' \<mapsto> 3, ''G'' \<mapsto> 2, ''Am'' \<mapsto> 1, ''F'' \<mapsto> 1]"
    by (rule ext) (simp add: record_key_def count_of_def int_wrap_def)
  then show ?thesis unfolding scan_lines_fold ks by simp
qed

lemma example_entries:
  "{(k, n). [''C'' \<mapsto> 3::int, ''G'' \<mapsto> 2, ''Am'' \<mapsto> 1, ''F'' \<mapsto> 1] k = Some n}
     = {(''C'', 3), (''G'', 2), (''Am'', 1), (''F'', 1)}"
  by (auto split: if_splits)

lemma example_order:
  assumes s: "set ys = {(''C'', 3::int), (''G'', 2), (''Am'', 1), (''F'', 1)}"
    and d: "distinct (map fst ys)"
    and o: "sorted_wrt (\<lambda>a b. snd b \<le> snd a) ys"
  shows "ys = [(''C'', 3), (''G'', 2), (''Am'', 1), (''F'', 1)] \<or>
         ys = [(''C'', 3), (''G'', 2), (''F'', 1), (''Am'', 1)]"
proof -
  let ?L = "[(''C'', 3::int), (''G'', 2), (''Am'', 1), (''F'', 1)]"
  from d have dy: "distinct ys" by (simp add: distinct_map)
  have "distinct ?L" by simp
  moreover have "set ys = set ?L" using s by simp
  ultimately have m: "mset ys = mset ?L" using dy by (simp only: set_eq_iff_mset_eq_distinct)
  then have "mset (map snd ys) = mset (map snd ?L)" by (simp only: mset_map)
  moreover have "sorted_wrt (\<lambda>a b. b \<le> a) (map snd ys)" using o by (simp add: sorted_wrt_map)
  moreover have "sorted_wrt (\<lambda>a b. b \<le> a) (map snd ?L)" by simp
  ultimately have c: "map snd ys = map snd ?L" by (rule sorted_desc_unique)
  then have "length ys = 4" using length_map [of snd ys] by simp
  then obtain y1 y2 y3 y4 where ys: "ys = [y1, y2, y3, y4]"
    by (auto simp: numeral_eq_Suc length_Suc_conv)
  from c ys have n: "snd y1 = 3" "snd y2 = 2" "snd y3 = 1" "snd y4 = 1" by simp_all
  have mem: "y \<in> set ys \<Longrightarrow> y = (''C'', 3) \<or> y = (''G'', 2) \<or> y = (''Am'', 1) \<or> y = (''F'', 1)" for y
    unfolding s by blast
  have "y1 \<in> set ys" "y2 \<in> set ys" "y3 \<in> set ys" "y4 \<in> set ys" by (simp_all add: ys)
  note ms = this [THEN mem]
  from ms(1) n(1) have y1: "y1 = (''C'', 3)" by auto
  from ms(2) n(2) have y2: "y2 = (''G'', 2)" by auto
  from ms(3) n(3) have y3: "y3 = (''Am'', 1) \<or> y3 = (''F'', 1)" by auto
  from ms(4) n(4) have y4: "y4 = (''Am'', 1) \<or> y4 = (''F'', 1)" by auto
  from dy ys have "y3 \<noteq> y4" by simp
  with y3 y4 have "(y3 = (''Am'', 1) \<and> y4 = (''F'', 1)) \<or> (y3 = (''F'', 1) \<and> y4 = (''Am'', 1))"
    by blast
  with y1 y2 ys show ?thesis by blast
qed

text \<open>
  C5: the scan of the two lines \<open>"C G Am F"\<close> and \<open>"C C G"\<close> produces exactly the table
  C: 3, G: 2, Am: 1, F: 1. Whatever the order of the \<open>range\<close> loop and whatever
  \<open>sort.Slice\<close> returns, the report lists C first, G second, and then Am and F in one of
  the two orders.
\<close>

theorem frequency_example:
  "scan_lines [''C G Am F'', ''C C G''] Map.empty =
     Some [''C'' \<mapsto> 3, ''G'' \<mapsto> 2, ''Am'' \<mapsto> 1, ''F'' \<mapsto> 1] \<and>
   (range_order [''C'' \<mapsto> 3, ''G'' \<mapsto> 2, ''Am'' \<mapsto> 1, ''F'' \<mapsto> 1] ks \<longrightarrow>
    sort_Slice Count_greater
      (frequencies [''C'' \<mapsto> 3, ''G'' \<mapsto> 2, ''Am'' \<mapsto> 1, ''F'' \<mapsto> 1] ks) ys \<longrightarrow>
      outputLines ys =
        [''Chord Usage Statistics'', ''======================'',
         ''C: 3'', ''G: 2'', ''Am: 1'', ''F: 1''] \<or>
      outputLines ys =
        [''Chord Usage Statistics'', ''======================'',
         ''C: 3'', ''G: 2'', ''F: 1'', ''Am: 1''])"
proof (intro conjI impI)
  show "scan_lines [''C G Am F'', ''C C G''] Map.empty =
     Some [''C'' \<mapsto> 3, ''G'' \<mapsto> 2, ''Am'' \<mapsto> 1, ''F'' \<mapsto> 1]"
    by (rule example_table)
next
  let ?t = "[''C'' \<mapsto> 3::int, ''G'' \<mapsto> 2, ''Am'' \<mapsto> 1, ''F'' \<mapsto> 1]"
  assume r: "range_order ?t ks" and s: "sort_Slice Count_greater (frequencies ?t ks) ys"
  note e = report_entries [OF r s]
  from e(1) have "set ys = {(''C'', 3), (''G'', 2), (''Am'', 1), (''F'', 1)}"
    by (simp only: example_entries)
  from example_order [OF this e(2) e(4)]
  have "ys = [(''C'', 3), (''G'', 2), (''Am'', 1), (''F'', 1)] \<or>
        ys = [(''C'', 3), (''G'', 2), (''F'', 1), (''Am'', 1)]" .
  moreover have "outputLines [(''C'', 3), (''G'', 2), (''Am'', 1), (''F'', 1)] =
        [''Chord Usage Statistics'', ''======================'',
         ''C: 3'', ''G: 2'', ''Am: 1'', ''F: 1'']" by code_simp
  moreover have "outputLines [(''C'', 3), (''G'', 2), (''F'', 1), (''Am'', 1)] =
        [''Chord Usage Statistics'', ''======================'',
         ''C: 3'', ''G: 2'', ''F: 1'', ''Am: 1'']" by code_simp
  ultimately show "outputLines ys =
        [''Chord Usage Statistics'', ''======================'',
         ''C: 3'', ''G: 2'', ''Am: 1'', ''F: 1''] \<or>
      outputLines ys =
        [''Chord Usage Statistics'', ''======================'',
         ''C: 3'', ''G: 2'', ''F: 1'', ''Am: 1'']"
    by metis
qed

theorem frequency_example_witness:
  "range_order [''C'' \<mapsto> 3, ''G'' \<mapsto> 2, ''Am'' \<mapsto> 1, ''F'' \<mapsto> 1] [''F'', ''G'', ''C'', ''Am''] \<and>
   sort_Slice Count_greater
     (frequencies [''C'' \<mapsto> 3, ''G'' \<mapsto> 2, ''Am'' \<mapsto> 1, ''F'' \<mapsto> 1] [''F'', ''G'', ''C'', ''Am''])
     [(''C'', 3), (''G'', 2), (''F'', 1), (''Am'', 1)] \<and>
   outputLines [(''C'', 3), (''G'', 2), (''F'', 1), (''Am'', 1)] =
     [''Chord Usage Statistics'', ''======================'', ''C: 3'', ''G: 2'', ''F: 1'', ''Am: 1'']"
proof -
  have r: "range_order [''C'' \<mapsto> 3, ''G'' \<mapsto> 2, ''Am'' \<mapsto> 1, ''F'' \<mapsto> 1] [''F'', ''G'', ''C'', ''Am'']"
    by (auto simp: range_order_def)
  have s: "sort_Slice Count_greater
     (frequencies [''C'' \<mapsto> 3, ''G'' \<mapsto> 2, ''Am'' \<mapsto> 1, ''F'' \<mapsto> 1] [''F'', ''G'', ''C'', ''Am''])
     [(''C'', 3), (''G'', 2), (''F'', 1), (''Am'', 1)]"
    by (simp add: sort_Slice_def frequencies_def Count_greater_def)
  have n: "outputLines [(''C'', 3), (''G'', 2), (''F'', 1), (''Am'', 1)] \<noteq>
     [''Chord Usage Statistics'', ''======================'', ''C: 3'', ''G: 2'', ''Am: 1'', ''F: 1'']"
    by (simp add: outputLines_def Sprintf_line_def)
  from frequency_example [of "[''F'', ''G'', ''C'', ''Am'']" "[(''C'', 3), (''G'', 2), (''F'', 1), (''Am'', 1)]"]
    r s n show ?thesis by blast
qed

end
